theory Spec2Isabelle
  imports Complex_Main
begin

section \<open>Python strings\<close>

text \<open>
  A Python \<open>str\<close> is modelled as a \<open>string\<close>, one \<open>char\<close> per character: the \<open>char\<close> with
  code \<open>n\<close> is the code point \<open>n\<close>, so the texts of the model are the texts over the code
  points 0 to 255. The library functions used by \<open>simple_foundry_orchestrator.py\<close>
  (\<open>str.lower\<close>, \<open>in\<close>, \<open>str.strip\<close>, \<open>str.endswith\<close>, \<open>repr\<close>, \<open>re.search\<close>) follow the
  Unicode database on these code points.
\<close>

text \<open>
  \<open>str.lower\<close>: the capitals are \<open>A\<close> to \<open>Z\<close> and the code points 0xC0 to 0xDE but the
  multiplication sign 0xD7; each has its small letter 32 places further.
\<close>

definition lower_char :: "char \<Rightarrow> char" where
  "lower_char c =
     (let n = (of_char c :: nat)
      in if (65 \<le> n \<and> n \<le> 90) \<or> (192 \<le> n \<and> n \<le> 222 \<and> n \<noteq> 215)
         then char_of (n + 32) else c)"

definition py_lower :: "string \<Rightarrow> string" where
  "py_lower s = map lower_char s"

definition startswith :: "string \<Rightarrow> string \<Rightarrow> bool" where
  "startswith s p = (take (length p) s = p)"

text \<open>\<open>py_in p s\<close> is Python's \<open>p in s\<close> on strings.\<close>

fun py_in :: "string \<Rightarrow> string \<Rightarrow> bool" where
  "py_in p [] = (p = [])"
| "py_in p (c # cs) = (startswith (c # cs) p \<or> py_in p cs)"

definition digit_char :: "nat \<Rightarrow> char" where
  "digit_char d = char_of (48 + d)"

function show_nat :: "nat \<Rightarrow> string" where
  "show_nat n = (if n < 10 then [digit_char n] else show_nat (n div 10) @ [digit_char (n mod 10)])"
  by pat_completeness auto
termination
  by (relation "measure id") auto

declare show_nat.simps [simp del]

section \<open>The fragment of \<open>re\<close> used by the classifier\<close>

datatype regex =
    Lit string
  | DotStar
  | WordB
  | Cat regex regex
  | Alt "regex list"

text \<open>
  \<open>\w\<close> of a \<open>str\<close> pattern: the underscore and every code point for which \<open>str.isalnum\<close>
  holds. Below 256 these are the ASCII letters and digits, the ordinal indicators 0xAA and
  0xBA, the superscript digits 0xB2, 0xB3 and 0xB9, the micro sign 0xB5, the fractions 0xBC
  to 0xBE, and the letters 0xC0 to 0xFF but the signs 0xD7 and 0xF7.
\<close>

definition is_word_char :: "char \<Rightarrow> bool" where
  "is_word_char c =
     (let n = (of_char c :: nat)
      in (48 \<le> n \<and> n \<le> 57) \<or> (65 \<le> n \<and> n \<le> 90) \<or> n = 95 \<or> (97 \<le> n \<and> n \<le> 122)
         \<or> n = 170 \<or> n = 178 \<or> n = 179 \<or> n = 181 \<or> n = 185 \<or> n = 186
         \<or> (188 \<le> n \<and> n \<le> 190) \<or> (192 \<le> n \<and> n \<le> 214) \<or> (216 \<le> n \<and> n \<le> 246)
         \<or> (248 \<le> n \<and> n \<le> 255))"

definition word_at :: "string \<Rightarrow> nat \<Rightarrow> bool" where
  "word_at s i = (i < length s \<and> is_word_char (s ! i))"

text \<open>\<open>\b\<close> holds at \<open>i\<close> when exactly one of the characters around \<open>i\<close> is a word character.\<close>

definition at_boundary :: "string \<Rightarrow> nat \<Rightarrow> bool" where
  "at_boundary s i = ((0 < i \<and> word_at s (i - 1)) \<noteq> word_at s i)"

text \<open>
  \<open>ends r s i\<close> lists the positions where a match of \<open>r\<close> that starts at position \<open>i\<close>
  of \<open>s\<close> can end. \<open>.\<close> matches any character but a newline.
\<close>

fun ends :: "regex \<Rightarrow> string \<Rightarrow> nat \<Rightarrow> nat list" where
  "ends (Lit w) s i = (if startswith (drop i s) w then [i + length w] else [])"
| "ends DotStar s i =
     map (\<lambda>k. i + k) [0..<Suc (length (takeWhile (\<lambda>c. c \<noteq> CHR 0x0A) (drop i s)))]"
| "ends WordB s i = (if at_boundary s i then [i] else [])"
| "ends (Cat r1 r2) s i = concat (map (ends r2 s) (ends r1 s i))"
| "ends (Alt rs) s i = concat (map (\<lambda>r. ends r s i) rs)"

definition re_search :: "regex \<Rightarrow> string \<Rightarrow> bool" where
  "re_search r s = list_ex (\<lambda>i. ends r s i \<noteq> []) [0..<Suc (length s)]"

text \<open>\<open>gap a b\<close> is \<open>a.*b\<close>; \<open>bounded alts\<close> is \<open>\b(alt|...|alt)\b\<close>.\<close>

definition gap :: "string \<Rightarrow> string \<Rightarrow> regex" where
  "gap a b = Cat (Lit a) (Cat DotStar (Lit b))"

definition bounded :: "regex list \<Rightarrow> regex" where
  "bounded alts = Cat WordB (Cat (Alt alts) WordB)"

section \<open>Events\<close>

datatype level = INFO | WARNING | ERROR

datatype event =
    Log level string
  | Invoke string string "string option"
  | CacheGet string
  | CacheSet string string

section \<open>The intent classifier\<close>

definition product_patterns :: "regex list" where
  "product_patterns =
    [bounded [Lit ''paint'', Lit ''color'', Lit ''blue'', Lit ''red'', Lit ''green'',
              Lit ''white'', Lit ''black'', Lit ''shade'', Lit ''tone'', Lit ''finish''],
     bounded [Lit ''product'', Lit ''item'', Lit ''buy'', Lit ''purchase'', Lit ''price'',
              Lit ''cost''],
     bounded [gap ''what'' ''offer'', gap ''show'' ''product'', gap ''find'' ''paint''],
     bounded [gap ''match'' ''color'', gap ''color'' ''match'', Lit ''sample''],
     bounded [Lit ''recommend'', Lit ''suggest'', gap ''help'' ''choose''],
     bounded [Lit ''interior'', Lit ''exterior'', Lit ''primer'', Lit ''coating'']]"

definition policy_patterns :: "regex list" where
  "policy_patterns =
    [bounded [Lit ''return'', Lit ''refund'', Lit ''exchange'', Lit ''policy'', Lit ''warranty''],
     bounded [Lit ''problem'', Lit ''issue'', Lit ''complaint'', Lit ''damaged'', Lit ''leaking''],
     bounded [Lit ''ship'', Lit ''delivery'', Lit ''shipping'', Lit ''track''],
     bounded [Lit ''help'', Lit ''support'', Lit ''contact'', Lit ''customer service''],
     bounded [Lit ''guarantee'', Lit ''coverage'', Lit ''defect''],
     bounded [Lit ''cancel'', gap ''order'' ''status'', Lit ''tracking'']]"

definition product_phrases :: "string list" where
  "product_phrases = [''what products'', ''what do you offer'', ''show me products'']"

definition policy_phrases :: "string list" where
  "policy_phrases = [''return policy'', ''warranty'', ''refund'', ''damaged'']"

definition score :: "regex list \<Rightarrow> string \<Rightarrow> nat" where
  "score patterns query_lower = length (filter (\<lambda>pattern. re_search pattern query_lower) patterns)"

definition determine_target_agent :: "string \<Rightarrow> string \<times> event list" where
  "determine_target_agent user_text =
    (let query_lower = py_lower user_text;
         product_score = score product_patterns query_lower;
         policy_score = score policy_patterns query_lower
     in if list_ex (\<lambda>phrase. py_in phrase query_lower) product_phrases
        then (''ProductLookupAgent'',
              [Log INFO ''Routing to ProductLookupAgent - general product inquiry''])
        else if list_ex (\<lambda>phrase. py_in phrase query_lower) policy_phrases
        then (''KnowledgeAgent'', [Log INFO ''Routing to KnowledgeAgent - policy inquiry''])
        else if product_score > policy_score
        then (''ProductLookupAgent'',
              [Log INFO (''Routing to ProductLookupAgent - product score: '' @ show_nat product_score)])
        else if policy_score > 0
        then (''KnowledgeAgent'',
              [Log INFO (''Routing to KnowledgeAgent - policy score: '' @ show_nat policy_score)])
        else (''ProductLookupAgent'',
              [Log INFO ''No specific keywords found, defaulting to ProductLookupAgent'']))"

section \<open>Exceptions\<close>

text \<open>
  \<open>KeyError\<close> and \<open>ValueError\<close> carry their argument; \<open>Exception m\<close> is any other instance
  of the class \<open>Exception\<close>, with message \<open>m\<close>. \<open>CancelledError\<close> stands for the exceptions
  that are not instances of \<open>Exception\<close> (\<open>asyncio.CancelledError\<close>, \<open>KeyboardInterrupt\<close>,
  \<open>SystemExit\<close>): an \<open>except Exception\<close> clause does not handle them.
\<close>

datatype py_exception = KeyError string | ValueError string | Exception string | CancelledError

fun is_Exception :: "py_exception \<Rightarrow> bool" where
  "is_Exception CancelledError = False"
| "is_Exception e = True"

definition hex_digit :: "nat \<Rightarrow> char" where
  "hex_digit d = (if d < 10 then char_of (48 + d) else char_of (87 + d))"

definition repr_char :: "char \<Rightarrow> char \<Rightarrow> string" where
  "repr_char q c =
     (let n = (of_char c :: nat)
      in if c = q \<or> n = 92 then [CHR 0x5C, c]
         else if n = 9 then [CHR 0x5C, CHR ''t'']
         else if n = 10 then [CHR 0x5C, CHR ''n'']
         else if n = 13 then [CHR 0x5C, CHR ''r'']
         else if n < 32 \<or> (127 \<le> n \<and> n \<le> 160) \<or> n = 173
              then [CHR 0x5C, CHR ''x'', hex_digit (n div 16), hex_digit (n mod 16)]
         else [c])"

text \<open>
  \<open>repr\<close> of a \<open>str\<close>: double quotes only when the text has a \<open>'\<close> and no \<open>"\<close>; the quote
  in use and the backslash are escaped, and so are the code points that are not printable
  (below 32, 127 to 0xA0, and the soft hyphen 0xAD).
\<close>

definition py_repr :: "string \<Rightarrow> string" where
  "py_repr s =
     (let q = (if CHR 0x27 \<in> set s \<and> CHR 0x22 \<notin> set s then CHR 0x22 else CHR 0x27)
      in q # concat (map (repr_char q) s) @ [q])"

text \<open>\<open>str(e)\<close>: a \<open>KeyError\<close> prints the \<open>repr\<close> of its key.\<close>

fun py_str :: "py_exception \<Rightarrow> string" where
  "py_str (KeyError k) = py_repr k"
| "py_str (ValueError m) = m"
| "py_str (Exception m) = m"
| "py_str CancelledError = []"

section \<open>The platform\<close>

text \<open>
  Two things the thread cache takes from the interpreter are parameters of the model.
  \<^item> \<open>log_call lvl msg\<close> is what a log call of the two overrides of \<open>ThreadCache\<close> does
    with the handlers installed: \<open>None\<close> when it returns, \<open>Some e\<close> when it raises \<open>e\<close>.
    The overrides guard their call of \<open>logger.info\<close>; the \<open>logger.error\<close> of their handlers
    is a call of the same logger and is not guarded. The result may depend on the record,
    as with a filter on the records of the cache. The log calls of the classifier and of
    \<open>respond\<close> are taken to return; they are recorded as events.
  \<^item> \<open>float_add a b\<close> is the sum of two floats, \<open>a + b\<close> rounded. Timer readings and the
    time-to-live are floats; they are taken as the real numbers they denote, and their
    comparison is exact.
\<close>

record platform =
  log_call :: "level \<Rightarrow> string \<Rightarrow> py_exception option"
  float_add :: "real \<Rightarrow> real \<Rightarrow> real"

section \<open>The thread cache\<close>

text \<open>
  \<open>ThreadCache\<close> extends \<open>cachetools.TTLCache\<close> and overrides \<open>expire\<close> and \<open>popitem\<close>;
  every other method is the library's. The library's state is kept as
  \<^item> \<open>entries\<close>: the links of the chain \<open>root.next .. root.prev\<close>, oldest assignment
    first, each with its key, the value \<open>Cache.__data\<close> holds for the key, and \<open>expires\<close>;
  \<^item> \<open>lru\<close>: the keys of the ordered dictionary \<open>__links\<close>, least recently used first.
  Every value has size 1 (no \<open>getsizeof\<close> is given), so \<open>Cache.__currsize\<close> is the number
  of entries. Each public operation reads the timer once; that reading is the argument
  \<open>t\<close>, and \<open>time.monotonic\<close> readings are taken as real numbers.

  The library is cachetools from version 5.5, where \<open>expire\<close> returns the removed pairs, as
  the override of \<open>expire\<close> requires. Its methods are quoted before their definitions.
\<close>

type_synonym time = real

record ttl_cache =
  maxsize :: nat
  ttl :: time
  entries :: "(string \<times> string \<times> time) list"
  lru :: "string list"

text \<open>
  \<open>TTLCache.__contains__\<close>: the key has a link and the link has not expired.
  \<^verbatim>\<open>
    def __contains__(self, key):
        try:
            link = self.__links[key]  # no reordering
        except KeyError:
            return False
        else:
            return self.timer() < link.expires
  \<close>
\<close>

definition TTLCache_contains :: "time \<Rightarrow> ttl_cache \<Rightarrow> string \<Rightarrow> bool" where
  "TTLCache_contains t c key =
     (key \<in> set (lru c) \<and>
      (case map_of (entries c) key of None \<Rightarrow> False | Some (v, expires) \<Rightarrow> t < expires))"

text \<open>
  \<open>TTLCache.__getitem__\<close>: \<open>__getlink\<close> moves the key to the end of \<open>__links\<close> before the
  expiry test, so the move stays when the lookup raises.
  \<^verbatim>\<open>
    def __getitem__(self, key, cache_getitem=Cache.__getitem__):
        try:
            link = self.__getlink(key)
        except KeyError:
            expired = False
        else:
            expired = not (self.timer() < link.expires)
        if expired:
            return self.__missing__(key)
        else:
            return cache_getitem(self, key)

    def __getlink(self, key):
        value = self.__links[key]
        self.__links.move_to_end(key)
        return value
  \<close>
\<close>

definition TTLCache_getitem :: "time \<Rightarrow> ttl_cache \<Rightarrow> string \<Rightarrow> (py_exception + string) \<times> ttl_cache" where
  "TTLCache_getitem t c key =
     (if key \<in> set (lru c)
      then (let c1 = c\<lparr>lru := removeAll key (lru c) @ [key]\<rparr>
            in case map_of (entries c) key of
                 None \<Rightarrow> (Inl (KeyError key), c1)
               | Some (v, expires) \<Rightarrow>
                   if \<not> t < expires then (Inl (KeyError key), c1) else (Inr v, c1))
      else (Inl (KeyError key), c))"

text \<open>
  \<open>Cache.get(key)\<close> with the default \<open>None\<close>, which the timed cache runs with the timer
  frozen; it does not call \<open>expire\<close>.
  \<^verbatim>\<open>
    def get(self, key, default=None):
        if key in self:
            return self[key]
        else:
            return default
  \<close>
\<close>

definition Cache_get :: "time \<Rightarrow> ttl_cache \<Rightarrow> string \<Rightarrow> (py_exception + string option) \<times> ttl_cache" where
  "Cache_get t c key =
     (if TTLCache_contains t c key
      then (case TTLCache_getitem t c key of
              (Inl e, c1) \<Rightarrow> (Inl e, c1)
            | (Inr v, c1) \<Rightarrow> (Inr (Some v), c1))
      else (Inr None, c))"

text \<open>
  \<open>TTLCache.expire(time)\<close> walks the chain from its head while the link has expired
  (\<open>not (time < curr.expires)\<close>) and returns the removed \<open>(key, value)\<close> pairs.
  \<^verbatim>\<open>
        while curr is not root and not (time < curr.expires):
            expired.append((curr.key, cache_getitem(self, curr.key)))
            cache_delitem(self, curr.key)
            del links[curr.key]
            next = curr.next
            curr.unlink()
            curr = next
        return expired
  \<close>
\<close>

definition TTLCache_expire :: "time \<Rightarrow> ttl_cache \<Rightarrow> (string \<times> string) list \<times> ttl_cache" where
  "TTLCache_expire t c =
     (let expired = takeWhile (\<lambda>(key, v, expires). \<not> t < expires) (entries c)
      in (map (\<lambda>(key, v, expires). (key, v)) expired,
          c\<lparr>entries := dropWhile (\<lambda>(key, v, expires). \<not> t < expires) (entries c),
            lru := filter (\<lambda>key. key \<notin> set (map fst expired)) (lru c)\<rparr>))"

text \<open>
  The two overrides wrap their log call in \<open>try\<close>/\<open>except Exception\<close>:
  \<^verbatim>\<open>
            try:
                logger.info(f"Thread expired from cache: {thread_id}")
            except Exception as e:
                logger.error(f"Error expiring thread {thread_id}: {e}")
  \<close>
  An instance of \<open>Exception\<close> raised by \<open>logger.info\<close> is handled by a call of
  \<open>logger.error\<close>; what that call raises, and what \<open>logger.info\<close> raises outside the class
  \<open>Exception\<close>, leaves the block. The result is the exception that leaves, if any, and
  the lines logged.
\<close>

definition guarded_log ::
  "platform \<Rightarrow> string \<Rightarrow> (py_exception \<Rightarrow> string) \<Rightarrow> py_exception option \<times> event list" where
  "guarded_log pf msg on_error =
     (case log_call pf INFO msg of
        None \<Rightarrow> (None, [Log INFO msg])
      | Some e \<Rightarrow>
          if is_Exception e
          then (case log_call pf ERROR (on_error e) of
                  None \<Rightarrow> (None, [Log ERROR (on_error e)])
                | Some e1 \<Rightarrow> (Some e1, []))
          else (Some e, []))"

definition expire_log :: "platform \<Rightarrow> string \<Rightarrow> py_exception option \<times> event list" where
  "expire_log pf thread_id =
     guarded_log pf (''Thread expired from cache: '' @ thread_id)
       (\<lambda>e. ''Error expiring thread '' @ thread_id @ '': '' @ py_str e)"

definition evict_log :: "platform \<Rightarrow> string \<Rightarrow> py_exception option \<times> event list" where
  "evict_log pf thread_id =
     guarded_log pf (''Thread evicted from cache (LRU): '' @ thread_id)
       (\<lambda>e. ''Error evicting thread '' @ thread_id @ '': '' @ py_str e)"

text \<open>The loop of \<open>ThreadCache.expire\<close> over the removed pairs; it stops where a block raises.\<close>

fun expire_logs :: "platform \<Rightarrow> (string \<times> string) list \<Rightarrow> py_exception option \<times> event list" where
  "expire_logs pf [] = (None, [])"
| "expire_logs pf ((key, thread_id) # items) =
     (case expire_log pf thread_id of
        (Some e, ev) \<Rightarrow> (Some e, ev)
      | (None, ev) \<Rightarrow> (case expire_logs pf items of (r, ev1) \<Rightarrow> (r, ev @ ev1)))"

text \<open>
  \<open>ThreadCache.expire\<close>: the entries are removed by \<open>super().expire(time)\<close> before the loop,
  so they stay removed when the loop raises.
\<close>

definition ThreadCache_expire ::
  "platform \<Rightarrow> time \<Rightarrow> ttl_cache
     \<Rightarrow> (py_exception + (string \<times> string) list) \<times> ttl_cache \<times> event list" where
  "ThreadCache_expire pf t c =
     (let (items, c1) = TTLCache_expire t c
      in case expire_logs pf items of
           (None, ev) \<Rightarrow> (Inr items, c1, ev)
         | (Some e, ev) \<Rightarrow> (Inl e, c1, ev))"

text \<open>
  \<open>TTLCache.__delitem__\<close> removes the entry and its link, then raises \<open>KeyError\<close> when the
  link had expired.
  \<^verbatim>\<open>
    def __delitem__(self, key, cache_delitem=Cache.__delitem__):
        cache_delitem(self, key)
        link = self.__links.pop(key)
        link.unlink()
        if not (self.timer() < link.expires):
            raise KeyError(key)
  \<close>
\<close>

definition TTLCache_delitem :: "time \<Rightarrow> ttl_cache \<Rightarrow> string \<Rightarrow> (py_exception + unit) \<times> ttl_cache" where
  "TTLCache_delitem t c key =
     (case map_of (entries c) key of
        None \<Rightarrow> (Inl (KeyError key), c)
      | Some (v, expires) \<Rightarrow>
          (let c1 = c\<lparr>entries := filter (\<lambda>x. fst x \<noteq> key) (entries c),
                      lru := removeAll key (lru c)\<rparr>
           in if \<not> t < expires then (Inl (KeyError key), c1) else (Inr (), c1)))"

text \<open>
  \<open>Cache.pop(key)\<close> without a default.
  \<^verbatim>\<open>
    def pop(self, key, default=__marker):
        if key in self:
            value = self[key]
            del self[key]
        elif default is self.__marker:
            raise KeyError(key)
        else:
            value = default
        return value
  \<close>
\<close>

definition Cache_pop :: "time \<Rightarrow> ttl_cache \<Rightarrow> string \<Rightarrow> (py_exception + string) \<times> ttl_cache" where
  "Cache_pop t c key =
     (if TTLCache_contains t c key
      then (case TTLCache_getitem t c key of
              (Inl e, c1) \<Rightarrow> (Inl e, c1)
            | (Inr v, c1) \<Rightarrow>
                (case TTLCache_delitem t c1 key of
                   (Inl e, c2) \<Rightarrow> (Inl e, c2)
                 | (Inr u, c2) \<Rightarrow> (Inr v, c2)))
      else (Inl (KeyError key), c))"

text \<open>
  \<open>TTLCache.popitem\<close>: expire (through the override), then pop the first key of
  \<open>__links\<close>; \<open>KeyError\<close> when there is none.
  \<^verbatim>\<open>
    def popitem(self):
        with self.timer as time:
            self.expire(time)
            try:
                key = next(iter(self.__links))
            except StopIteration:
                raise KeyError("%s is empty" % type(self).__name__) from None
            else:
                return (key, self.pop(key))
  \<close>
\<close>

definition TTLCache_popitem ::
  "platform \<Rightarrow> time \<Rightarrow> ttl_cache \<Rightarrow> (py_exception + string \<times> string) \<times> ttl_cache \<times> event list" where
  "TTLCache_popitem pf t c =
     (case ThreadCache_expire pf t c of
        (Inl e, c1, ev) \<Rightarrow> (Inl e, c1, ev)
      | (Inr items, c1, ev) \<Rightarrow>
          (case lru c1 of
             [] \<Rightarrow> (Inl (KeyError ''ThreadCache is empty''), c1, ev)
           | key # rest \<Rightarrow>
               (case Cache_pop t c1 key of
                  (Inl e, c2) \<Rightarrow> (Inl e, c2, ev)
                | (Inr v, c2) \<Rightarrow> (Inr (key, v), c2, ev))))"

text \<open>
  \<open>ThreadCache.popitem\<close>: the pair is popped before the guarded log call, so it stays
  popped when the block raises.
\<close>

definition ThreadCache_popitem ::
  "platform \<Rightarrow> time \<Rightarrow> ttl_cache \<Rightarrow> (py_exception + string \<times> string) \<times> ttl_cache \<times> event list" where
  "ThreadCache_popitem pf t c =
     (case TTLCache_popitem pf t c of
        (Inl e, c1, ev) \<Rightarrow> (Inl e, c1, ev)
      | (Inr (key, thread_id), c1, ev) \<Rightarrow>
          (case evict_log pf thread_id of
             (None, ev1) \<Rightarrow> (Inr (key, thread_id), c1, ev @ ev1)
           | (Some e, ev1) \<Rightarrow> (Inl e, c1, ev @ ev1)))"

text \<open>
  The loop of \<open>Cache.__setitem__\<close>, \<open>while self.__currsize + size > maxsize: self.popitem()\<close>,
  with the overridden \<open>popitem\<close>. A successful \<open>popitem\<close> removes an entry, so the loop ends.
\<close>

function make_room ::
  "platform \<Rightarrow> time \<Rightarrow> ttl_cache \<Rightarrow> (py_exception + unit) \<times> ttl_cache \<times> event list" where
  "make_room pf t c =
     (if maxsize c < length (entries c) + 1
      then (case ThreadCache_popitem pf t c of
              (Inl e, c1, ev) \<Rightarrow> (Inl e, c1, ev)
            | (Inr item, c1, ev) \<Rightarrow>
                (case make_room pf t c1 of (r, c2, ev2) \<Rightarrow> (r, c2, ev @ ev2)))
      else (Inr (), c, []))"
  by pat_completeness auto

termination
proof -
  have dec: "length (entries c1) < length (entries c)"
    if pop: "ThreadCache_popitem pf t c = (Inr item, c1, ev)" for pf t c item c1 ev
  proof -
    define c0 where "c0 = fst (snd (ThreadCache_expire pf t c))"
    have le: "length (entries c0) \<le> length (entries c)"
      unfolding c0_def ThreadCache_expire_def TTLCache_expire_def Let_def
      by (simp add: length_dropWhile_le split: prod.splits option.splits)
    from pop obtain key v where cp: "Cache_pop t c0 key = (Inr v, c1)"
      unfolding ThreadCache_popitem_def TTLCache_popitem_def c0_def
      by (auto split: prod.splits sum.splits list.splits option.splits)
    from cp obtain v' e where m: "map_of (entries c0) key = Some (v', e)"
      and c1: "entries c1 = filter (\<lambda>x. fst x \<noteq> key) (entries c0)"
      unfolding Cache_pop_def TTLCache_contains_def TTLCache_getitem_def TTLCache_delitem_def Let_def
      by (auto split: prod.splits sum.splits option.splits if_splits)
    from m have "(key, v', e) \<in> set (entries c0)" by (rule map_of_SomeD)
    then have "length (filter (\<lambda>x. fst x \<noteq> key) (entries c0)) < length (entries c0)"
      by (intro length_filter_less[where x = "(key, v', e)"]) auto
    with c1 le show ?thesis by simp
  qed
  show ?thesis
    by (relation "measure (\<lambda>(pf, t, c). length (entries c))") (auto dest!: dec[OF sym])
qed

declare make_room.simps [simp del]

text \<open>
  \<open>cache[key] = val\<close>, that is \<open>TTLCache.__setitem__\<close>: expire (through the override), then
  \<open>Cache.__setitem__\<close> (\<open>ValueError\<close> when one value is larger than the cache; room is
  made only for a key that \<open>__data\<close> does not hold), then the link of the key goes to the end
  of \<open>__links\<close> and of the chain with \<open>expires = time + ttl\<close>, a sum of floats.
  \<^verbatim>\<open>
    def __setitem__(self, key, value, cache_setitem=Cache.__setitem__):
        with self.timer as time:
            self.expire(time)
            cache_setitem(self, key, value)
        try:
            link = self.__getlink(key)
        except KeyError:
            self.__links[key] = link = TTLCache._Link(key)
        else:
            link.unlink()
        link.expires = time + self.__ttl
        link.next = root = self.__root
        link.prev = prev = root.prev
        prev.next = root.prev = link
  \<close>
  and in \<open>Cache\<close>
  \<^verbatim>\<open>
    def __setitem__(self, key, value):
        maxsize = self.__maxsize
        size = self.getsizeof(value)
        if size > maxsize:
            raise ValueError("value too large")
        if key not in self.__data or self.__size[key] < size:
            while self.__currsize + size > maxsize:
                self.popitem()
        ...
        self.__data[key] = value
  \<close>
\<close>

definition ThreadCache_setitem ::
  "platform \<Rightarrow> time \<Rightarrow> ttl_cache \<Rightarrow> string \<Rightarrow> string
     \<Rightarrow> (py_exception + unit) \<times> ttl_cache \<times> event list" where
  "ThreadCache_setitem pf t c key val =
     (case ThreadCache_expire pf t c of
        (Inl e, c1, ev1) \<Rightarrow> (Inl e, c1, ev1)
      | (Inr items, c1, ev1) \<Rightarrow>
          if maxsize c1 < 1 then (Inl (ValueError ''value too large''), c1, ev1)
          else (case (if key \<in> set (map fst (entries c1)) then (Inr (), c1, [])
                      else make_room pf t c1) of
                  (Inl e, c2, ev2) \<Rightarrow> (Inl e, c2, ev1 @ ev2)
                | (Inr u, c2, ev2) \<Rightarrow>
                    (Inr (),
                     c2\<lparr>entries := filter (\<lambda>x. fst x \<noteq> key) (entries c2)
                                    @ [(key, val, float_add pf t (ttl c2))],
                        lru := removeAll key (lru c2) @ [key]\<rparr>,
                     ev1 @ ev2)))"

text \<open>\<open>ThreadCache(maxsize=m, ttl=l)\<close>: an empty cache.\<close>

definition ThreadCache :: "nat \<Rightarrow> time \<Rightarrow> ttl_cache" where
  "ThreadCache m l = \<lparr>maxsize = m, ttl = l, entries = [], lru = []\<rparr>"

section \<open>The orchestrator\<close>

text \<open>
  The dictionary \<open>respond\<close> returns is a list of its items in insertion order. A message
  of the agent's stream is modelled by the text of \<open>message.content\<close> (\<open>None\<close> when the
  attribute is missing or \<open>None\<close>) and the id of \<open>message.thread\<close> (\<open>None\<close> when the message
  has no thread), together with the timer reading at which it is handled. The stream is
  finite; it ends normally or with an exception raised after its last message. An agent is
  what its \<open>invoke(messages=user_text, thread=thread)\<close> does, the thread given by its id.
\<close>

datatype py_value = Str string | Bool bool | StrList "string list"

type_synonym response = "(string \<times> py_value) list"

record message =
  content :: "string option"
  thread :: "string option"

datatype stream = Stream "(time \<times> message) list" "py_exception option"

type_synonym agent = "string \<Rightarrow> string option \<Rightarrow> stream"

record orchestrator =
  agents :: "string \<rightharpoonup> agent"
  is_configured :: bool
  thread_cache :: ttl_cache

text \<open>\<open>SimpleFoundryOrchestrator.__init__\<close>, given what \<open>has_foundry_config()\<close> returns.\<close>

definition SimpleFoundryOrchestrator_init :: "bool \<Rightarrow> orchestrator \<times> event list" where
  "SimpleFoundryOrchestrator_init has_foundry_config =
     (\<lparr>agents = Map.empty, is_configured = has_foundry_config,
       thread_cache = ThreadCache 1000 3600\<rparr>,
      if \<not> has_foundry_config
      then [Log WARNING ''Foundry not configured. Set AZURE_FOUNDRY_ENDPOINT and agent IDs'']
      else [])"

text \<open>Truth value of an optional \<open>str\<close>: \<open>None\<close> and the empty text are false.\<close>

fun truthy :: "string option \<Rightarrow> bool" where
  "truthy None = False"
| "truthy (Some s) = (s \<noteq> [])"

text \<open>
  The characters \<open>str.strip()\<close> removes, those for which \<open>str.isspace\<close> holds: below 256
  the code points 9 to 13, 28 to 32, 0x85 (next line) and 0xA0 (no-break space).
\<close>

definition is_space :: "char \<Rightarrow> bool" where
  "is_space c =
     (let n = (of_char c :: nat)
      in (9 \<le> n \<and> n \<le> 13) \<or> (28 \<le> n \<and> n \<le> 32) \<or> n = 133 \<or> n = 160)"

definition py_strip :: "string \<Rightarrow> string" where
  "py_strip s = rev (dropWhile is_space (rev (dropWhile is_space s)))"

definition endswith :: "string \<Rightarrow> string \<Rightarrow> bool" where
  "endswith s suffix =
     (length suffix \<le> length s \<and> drop (length s - length suffix) s = suffix)"

definition cache_key_of :: "string \<Rightarrow> string \<Rightarrow> string" where
  "cache_key_of conversation_id target_agent_name = conversation_id @ ''_'' @ target_agent_name"

text \<open>Lines 230 to 236: the thread to reuse, if the conversation has one in the cache.\<close>

definition cached_thread ::
  "time \<Rightarrow> ttl_cache \<Rightarrow> string option \<Rightarrow> string
     \<Rightarrow> (py_exception + string option) \<times> ttl_cache \<times> event list" where
  "cached_thread now c conversation_id target_agent_name =
     (case conversation_id of
        None \<Rightarrow> (Inr None, c, [])
      | Some cid \<Rightarrow>
          if cid = [] then (Inr None, c, [])
          else (let cache_key = cache_key_of cid target_agent_name
                in case Cache_get now c cache_key of
                     (Inl e, c1) \<Rightarrow> (Inl e, c1, [CacheGet cache_key])
                   | (Inr thread_id, c1) \<Rightarrow>
                       if truthy thread_id
                       then (Inr thread_id, c1,
                             [CacheGet cache_key,
                              Log INFO (''Reusing cached thread: '' @ the thread_id)])
                       else (Inr None, c1, [CacheGet cache_key])))"

text \<open>Lines 239 to 247: the loop over the messages of the stream.\<close>

fun drain ::
  "platform \<Rightarrow> string option \<Rightarrow> string \<Rightarrow> (time \<times> message) list
     \<Rightarrow> string \<Rightarrow> ttl_cache \<Rightarrow> (py_exception + string) \<times> ttl_cache \<times> event list" where
  "drain pf conversation_id target_agent_name [] response_content c =
     (Inr response_content, c, [])"
| "drain pf conversation_id target_agent_name ((t, message) # rest) response_content c =
     (let response_content1 =
            (if truthy (content message) then response_content @ the (content message)
             else response_content)
      in if truthy conversation_id \<and> thread message \<noteq> None
         then (let cache_key = cache_key_of (the conversation_id) target_agent_name;
                   thread_id = the (thread message)
               in case ThreadCache_setitem pf t c cache_key thread_id of
                    (Inl e, c1, ev) \<Rightarrow> (Inl e, c1, CacheSet cache_key thread_id # ev)
                  | (Inr u, c1, ev) \<Rightarrow>
                      (case drain pf conversation_id target_agent_name rest response_content1 c1 of
                         (r, c2, ev2) \<Rightarrow> (r, c2, CacheSet cache_key thread_id # ev @ ev2)))
         else drain pf conversation_id target_agent_name rest response_content1 c)"

text \<open>
  The \<open>except Exception\<close> clause of line 263: an instance of \<open>Exception\<close> becomes the
  failure dictionary; any other exception leaves \<open>respond\<close> (\<open>Inl\<close>).
\<close>

definition handled ::
  "py_exception \<Rightarrow> orchestrator \<Rightarrow> event list
     \<Rightarrow> (py_exception + response) \<times> orchestrator \<times> event list" where
  "handled e self ev =
     (if is_Exception e
      then (Inr [(''error'', Str (''Failed to generate response: '' @ py_str e)),
                 (''text'', Str ''I'm sorry, I encountered an error trying to process your request.'')],
            self, ev @ [Log ERROR (''Error in Simple Foundry orchestrator: '' @ py_str e)])
      else (Inl e, self, ev))"

text \<open>
  \<open>respond(user_text, conversation_id)\<close>; \<open>history\<close> is not used by the source. The result
  is the returned dictionary (\<open>Inr\<close>) or the exception that leaves the call (\<open>Inl\<close>), the
  orchestrator after the call and the events of the call in order.
\<close>

definition respond ::
  "platform \<Rightarrow> orchestrator \<Rightarrow> time \<Rightarrow> string \<Rightarrow> string option
     \<Rightarrow> (py_exception + response) \<times> orchestrator \<times> event list" where
  "respond pf self now user_text conversation_id =
     (if \<not> is_configured self
      then (Inr [(''error'', Str ''Simple Foundry orchestrator not configured''),
                 (''text'', Str ''I'm sorry, the AI service is not properly configured.'')],
            self, [Log ERROR ''Simple Foundry orchestrator not configured''])
      else (case determine_target_agent user_text of (target_agent_name, ev0) \<Rightarrow>
        (case agents self target_agent_name of
           None \<Rightarrow>
             (Inr [(''error'', Str (''Agent '' @ target_agent_name @ '' not available'')),
                   (''text'', Str (''I'm sorry, the '' @ target_agent_name @ '' is not currently available.''))],
              self, ev0 @ [Log ERROR (''Agent '' @ target_agent_name @ '' not available'')])
         | Some agent \<Rightarrow>
             (let ev1 = ev0 @ [Log INFO (''Using '' @ target_agent_name @ '' for query: ''
                                          @ take 50 user_text @ ''...'')]
              in case cached_thread now (thread_cache self) conversation_id target_agent_name of
                   (Inl e, c1, ev2) \<Rightarrow> handled e (self\<lparr>thread_cache := c1\<rparr>) (ev1 @ ev2)
                 | (Inr thr, c1, ev2) \<Rightarrow>
                     (case agent user_text thr of Stream msgs failure \<Rightarrow>
                        (let ev3 = ev1 @ ev2 @ [Invoke target_agent_name user_text thr]
                         in case drain pf conversation_id target_agent_name msgs [] c1 of
                              (Inl e, c2, ev4) \<Rightarrow> handled e (self\<lparr>thread_cache := c2\<rparr>) (ev3 @ ev4)
                            | (Inr response_content, c2, ev4) \<Rightarrow>
                                (case failure of
                                   Some e \<Rightarrow> handled e (self\<lparr>thread_cache := c2\<rparr>) (ev3 @ ev4)
                                 | None \<Rightarrow>
                                     if response_content \<noteq> []
                                     then (Inr [(''messages'', StrList [response_content]),
                                                (''awaiting_user'',
                                                 Bool (endswith (py_strip response_content) ''?'')),
                                                (''text'', Str response_content)],
                                           self\<lparr>thread_cache := c2\<rparr>,
                                           ev3 @ ev4 @
                                           [Log INFO (target_agent_name @ '' response length: ''
                                                      @ show_nat (length response_content) @ '' chars'')])
                                     else (Inr [(''error'', Str ''No response from agent''),
                                                (''text'', Str ''I'm sorry, I couldn't get a response from the agent.'')],
                                           self\<lparr>thread_cache := c2\<rparr>,
                                           ev3 @ ev4 @
                                           [Log ERROR (''No response from '' @ target_agent_name)]))))))))"

section \<open>The invariant of the thread cache\<close>

text \<open>
  \<open>cache_inv pf t c\<close> holds of a cache whose last operation read the timer at \<open>t\<close> or
  before: both structures hold the same keys, each once; the chain is in the order of
  \<open>expires\<close>, as it is when the timer never goes back; the cache is not over its size.
  \<open>purged\<close>, \<open>evicted\<close> and \<open>stored\<close> are the three steps of an assignment in closed form:
  dropping the expired entries, dropping the least recently used one, writing the entry.

  \<open>log_contained pf\<close> says of the log calls that nothing leaves a guarded block: a call at
  level \<open>INFO\<close> raises instances of \<open>Exception\<close> only, and a call at level \<open>ERROR\<close> returns.
  \<open>add_monotone pf\<close> says that the sum of floats is monotone in its first argument, as the
  rounded sum is.
\<close>

definition log_contained :: "platform \<Rightarrow> bool" where
  "log_contained pf =
     ((\<forall>msg e. log_call pf INFO msg = Some e \<longrightarrow> is_Exception e)
      \<and> (\<forall>msg. log_call pf ERROR msg = None))"

definition add_monotone :: "platform \<Rightarrow> bool" where
  "add_monotone pf = (\<forall>a b l. a \<le> b \<longrightarrow> float_add pf a l \<le> float_add pf b l)"

definition expires_of :: "string \<times> string \<times> time \<Rightarrow> time" where
  "expires_of x = snd (snd x)"

definition cache_inv :: "platform \<Rightarrow> time \<Rightarrow> ttl_cache \<Rightarrow> bool" where
  "cache_inv pf t c =
     (distinct (map fst (entries c)) \<and> distinct (lru c)
      \<and> set (lru c) = set (map fst (entries c))
      \<and> sorted (map expires_of (entries c))
      \<and> list_all (\<lambda>x. expires_of x \<le> float_add pf t (ttl c)) (entries c)
      \<and> 1 \<le> maxsize c \<and> length (entries c) \<le> maxsize c)"

definition live :: "time \<Rightarrow> (string \<times> string \<times> time) list \<Rightarrow> (string \<times> string \<times> time) list" where
  "live t es = filter (\<lambda>x. t < expires_of x) es"

definition purged :: "time \<Rightarrow> ttl_cache \<Rightarrow> ttl_cache" where
  "purged t c = c\<lparr>entries := live t (entries c),
                  lru := filter (\<lambda>k. k \<in> set (map fst (live t (entries c)))) (lru c)\<rparr>"

definition evicted :: "ttl_cache \<Rightarrow> ttl_cache" where
  "evicted c = c\<lparr>entries := filter (\<lambda>x. fst x \<noteq> hd (lru c)) (entries c), lru := tl (lru c)\<rparr>"

definition victim_value :: "ttl_cache \<Rightarrow> string" where
  "victim_value c = fst (the (map_of (entries c) (hd (lru c))))"

definition stored :: "platform \<Rightarrow> time \<Rightarrow> string \<Rightarrow> string \<Rightarrow> ttl_cache \<Rightarrow> ttl_cache" where
  "stored pf t key val c =
     c\<lparr>entries := filter (\<lambda>x. fst x \<noteq> key) (entries c) @ [(key, val, float_add pf t (ttl c))],
       lru := removeAll key (lru c) @ [key]\<rparr>"

definition after_put :: "platform \<Rightarrow> time \<Rightarrow> string \<Rightarrow> string \<Rightarrow> ttl_cache \<Rightarrow> ttl_cache" where
  "after_put pf t key val c =
     (let c1 = purged t c
      in if key \<in> set (map fst (entries c1)) \<or> length (entries c1) < maxsize c1
         then stored pf t key val c1
         else stored pf t key val (evicted c1))"

text \<open>
  The line a guarded block leaves in the log when nothing leaves the block: the line of
  \<open>logger.info\<close>, or the line of the handler when \<open>logger.info\<close> raised.
\<close>

definition hook_event :: "platform \<Rightarrow> string \<Rightarrow> (py_exception \<Rightarrow> string) \<Rightarrow> event" where
  "hook_event pf msg on_error =
     (case log_call pf INFO msg of None \<Rightarrow> Log INFO msg | Some e \<Rightarrow> Log ERROR (on_error e))"

definition expire_event :: "platform \<Rightarrow> string \<Rightarrow> event" where
  "expire_event pf thread_id =
     hook_event pf (''Thread expired from cache: '' @ thread_id)
       (\<lambda>e. ''Error expiring thread '' @ thread_id @ '': '' @ py_str e)"

definition evict_event :: "platform \<Rightarrow> string \<Rightarrow> event" where
  "evict_event pf thread_id =
     hook_event pf (''Thread evicted from cache (LRU): '' @ thread_id)
       (\<lambda>e. ''Error evicting thread '' @ thread_id @ '': '' @ py_str e)"

definition put_events :: "platform \<Rightarrow> time \<Rightarrow> string \<Rightarrow> ttl_cache \<Rightarrow> event list" where
  "put_events pf t key c =
     map (\<lambda>x. expire_event pf (fst (snd x))) (filter (\<lambda>x. \<not> t < expires_of x) (entries c))
     @ (let c1 = purged t c
        in if key \<in> set (map fst (entries c1)) \<or> length (entries c1) < maxsize c1 then []
           else [evict_event pf (victim_value c1)])"

section \<open>Auxiliary notions for the statements\<close>

text \<open>
  The invocations among the events of a call, the text of a stream, the closed form of the
  end of \<open>respond\<close>, and the concrete orchestrators and caches the witnesses run.
\<close>

fun is_invoke :: "event \<Rightarrow> bool" where
  "is_invoke (Invoke a u thr) = True"
| "is_invoke e = False"

definition fragment :: "message \<Rightarrow> string" where
  "fragment m = (case content m of None \<Rightarrow> [] | Some x \<Rightarrow> x)"

definition stream_text :: "(time \<times> message) list \<Rightarrow> string" where
  "stream_text msgs = concat (map (\<lambda>x. fragment (snd x)) msgs)"

definition touched :: "string \<Rightarrow> ttl_cache \<Rightarrow> ttl_cache" where
  "touched key c = c\<lparr>lru := removeAll key (lru c) @ [key]\<rparr>"

definition failure_response :: "py_exception \<Rightarrow> response" where
  "failure_response e =
     [(''error'', Str (''Failed to generate response: '' @ py_str e)),
      (''text'', Str ''I'm sorry, I encountered an error trying to process your request.'')]"

definition success_response :: "string \<Rightarrow> response" where
  "success_response t =
     [(''messages'', StrList [t]),
      (''awaiting_user'', Bool (endswith (py_strip t) ''?'')),
      (''text'', Str t)]"

definition no_response :: response where
  "no_response =
     [(''error'', Str ''No response from agent''),
      (''text'', Str ''I'm sorry, I couldn't get a response from the agent.'')]"

definition outcome ::
  "string \<Rightarrow> py_exception + string \<Rightarrow> py_exception option
     \<Rightarrow> (py_exception + response) \<times> event list" where
  "outcome name rd failure =
     (case (case rd of Inl e \<Rightarrow> Some e | Inr t \<Rightarrow> failure) of
        Some e \<Rightarrow>
          if is_Exception e
          then (Inr (failure_response e),
                [Log ERROR (''Error in Simple Foundry orchestrator: '' @ py_str e)])
          else (Inl e, [])
      | None \<Rightarrow>
          (case rd of
             Inl e \<Rightarrow> (Inl e, [])
           | Inr t \<Rightarrow>
               if t \<noteq> []
               then (Inr (success_response t),
                     [Log INFO (name @ '' response length: '' @ show_nat (length t) @ '' chars'')])
               else (Inr no_response, [Log ERROR (''No response from '' @ name)])))"

text \<open>
  Platforms for the concrete runs, by what the log calls of the cache do: on \<open>quiet\<close> each
  returns; on \<open>failing_info\<close> each call of \<open>logger.info\<close> raises an instance of \<open>Exception\<close>
  and \<open>logger.error\<close> returns; on \<open>failing_log\<close> each call raises one, as with a handler
  that raises on these records; on \<open>interrupted_info\<close> each call of \<open>logger.info\<close> raises an
  exception that is not an instance of \<open>Exception\<close>. Their sum is the exact one: the timer
  readings of the runs are whole numbers, on which the sum of floats is exact.
\<close>

definition quiet :: platform where
  "quiet = \<lparr>log_call = (\<lambda>lvl msg. None), float_add = (\<lambda>a b. a + b)\<rparr>"




definition demo_agent :: agent where
  "demo_agent user_text thr =
     Stream [(1, \<lparr>content = Some ''I found '', thread = Some ''thread_1''\<rparr>),
             (2, \<lparr>content = Some ''two paints.'', thread = Some ''thread_1''\<rparr>)] None"

definition demo :: orchestrator where
  "demo = (fst (SimpleFoundryOrchestrator_init True))\<lparr>agents := [''ProductLookupAgent'' \<mapsto> demo_agent]\<rparr>"







definition asking_agent :: agent where
  "asking_agent user_text thr =
     Stream [(1, \<lparr>content = Some ''Is the can '', thread = None\<rparr>),
             (2, \<lparr>content = Some ''damaged?'', thread = None\<rparr>),
             (3, \<lparr>content = Some [CHR 0x20, CHR 0xA0, CHR 0x85, CHR 0x0A], thread = None\<rparr>)] None"

definition demo_asking :: orchestrator where
  "demo_asking = (fst (SimpleFoundryOrchestrator_init True))\<lparr>agents := [''KnowledgeAgent'' \<mapsto> asking_agent]\<rparr>"

text \<open>A cache of two slots with a time-to-live of 10: \<open>a\<close> was assigned at 0 and read at 2,
  \<open>b\<close> was assigned at 1.\<close>

definition small_cache :: ttl_cache where
  "small_cache = \<lparr>maxsize = 2, ttl = 10,
                   entries = [(''a'', ''thread_a'', 10), (''b'', ''thread_b'', 11)],
                   lru = [''b'', ''a'']\<rparr>"

text \<open>
  An agent that answers three questions at the readings of the timer at which the calls
  below are made, and the orchestrator that has it as its product agent.
\<close>

definition scripted_agent :: agent where
  "scripted_agent user_text thr =
     (if user_text = ''Show me blue paint''
      then Stream [(1, \<lparr>content = Some ''I found '', thread = Some ''thread_1''\<rparr>),
                   (2, \<lparr>content = Some ''two paints.'', thread = Some ''thread_1''\<rparr>)] None
      else if user_text = ''Show me green paint''
      then Stream [(51, \<lparr>content = Some ''No green paint.'', thread = Some ''thread_2''\<rparr>)] None
      else Stream [(101, \<lparr>content = Some ''One red paint.'', thread = thr\<rparr>)] None)"

definition shop :: orchestrator where
  "shop = (fst (SimpleFoundryOrchestrator_init True))\<lparr>agents := [''ProductLookupAgent'' \<mapsto> scripted_agent]\<rparr>"

section \<open>Facts about the string functions\<close>

lemma startswith_iff: "startswith s p \<longleftrightarrow> (\<exists>b. s = p @ b)"
proof
  assume "startswith s p"
  then have "s = p @ drop (length p) s"
    unfolding startswith_def by (metis append_take_drop_id)
  then show "\<exists>b. s = p @ b" ..
next
  assume "\<exists>b. s = p @ b"
  then show "startswith s p"
    unfolding startswith_def by auto
qed

text \<open>\<open>py_in\<close> is containment as a contiguous substring.\<close>

lemma py_in_iff: "py_in p s \<longleftrightarrow> (\<exists>a b. s = a @ p @ b)"
proof (induction s)
  case Nil
  then show ?case by auto
next
  case (Cons c cs)
  show ?case
  proof
    assume "py_in p (c # cs)"
    then consider "startswith (c # cs) p" | "py_in p cs" by auto
    then show "\<exists>a b. c # cs = a @ p @ b"
    proof cases
      case 1
      then obtain b where "c # cs = p @ b" using startswith_iff by blast
      then have "c # cs = [] @ p @ b" by simp
      then show ?thesis by blast
    next
      case 2
      then obtain a b where "cs = a @ p @ b" using Cons.IH by blast
      then have "c # cs = (c # a) @ p @ b" by simp
      then show ?thesis by blast
    qed
  next
    assume "\<exists>a b. c # cs = a @ p @ b"
    then obtain a b where ab: "c # cs = a @ p @ b" by blast
    show "py_in p (c # cs)"
    proof (cases a)
      case Nil
      with ab have "startswith (c # cs) p" using startswith_iff by auto
      then show ?thesis by simp
    next
      case (Cons x a')
      with ab have "cs = a' @ p @ b" by simp
      then have "py_in p cs" using Cons.IH by blast
      then show ?thesis by simp
    qed
  qed
qed

section \<open>Routing by override phrases and scores\<close>

text \<open>
  C1. A text whose lower-cased form contains one of the product override phrases is
  routed to ProductLookupAgent, whatever the pattern scores are and whatever policy keywords
  or policy phrases it also contains.
\<close>

theorem product_override_wins:
  assumes "phrase \<in> set product_phrases"
    and "py_in phrase (py_lower user_text)"
  shows "fst (determine_target_agent user_text) = ''ProductLookupAgent''"
proof -
  from assms have "list_ex (\<lambda>phrase. py_in phrase (py_lower user_text)) product_phrases"
    unfolding list_ex_iff by blast
  then show ?thesis
    unfolding determine_target_agent_def Let_def by simp
qed

theorem product_override_wins_witness:
  "''what products'' \<in> set product_phrases
   \<and> py_in ''what products'' (py_lower ''What Products have a refund warranty?'')
   \<and> py_in ''warranty'' (py_lower ''What Products have a refund warranty?'')
   \<and> fst (determine_target_agent ''What Products have a refund warranty?'') = ''ProductLookupAgent''"
proof -
  have h1: "''what products'' \<in> set product_phrases"
    by (simp add: product_phrases_def)
  have h2: "py_in ''what products'' (py_lower ''What Products have a refund warranty?'')"
    by code_simp
  have h3: "py_in ''warranty'' (py_lower ''What Products have a refund warranty?'')"
    by code_simp
  from h1 h2 h3 product_override_wins [OF h1 h2] show ?thesis by blast
qed

text \<open>
  C2. A text whose lower-cased form contains one of the policy override phrases is routed
  to KnowledgeAgent, unless it also contains a product override phrase: those are tested
  first, and then the answer is ProductLookupAgent.
\<close>

theorem policy_override_after_product:
  assumes "phrase \<in> set policy_phrases"
    and "py_in phrase (py_lower user_text)"
  shows "fst (determine_target_agent user_text) =
         (if list_ex (\<lambda>p. py_in p (py_lower user_text)) product_phrases
          then ''ProductLookupAgent'' else ''KnowledgeAgent'')"
proof -
  from assms have "list_ex (\<lambda>phrase. py_in phrase (py_lower user_text)) policy_phrases"
    unfolding list_ex_iff by blast
  then show ?thesis
    unfolding determine_target_agent_def Let_def by simp
qed

theorem policy_override_after_product_witness:
  "''damaged'' \<in> set policy_phrases
   \<and> py_in ''damaged'' (py_lower ''My blue paint arrived DAMAGED'')
   \<and> \<not> list_ex (\<lambda>p. py_in p (py_lower ''My blue paint arrived DAMAGED'')) product_phrases
   \<and> fst (determine_target_agent ''My blue paint arrived DAMAGED'') = ''KnowledgeAgent''"
proof -
  have h1: "''damaged'' \<in> set policy_phrases"
    by (simp add: policy_phrases_def)
  have h2: "py_in ''damaged'' (py_lower ''My blue paint arrived DAMAGED'')"
    by code_simp
  have h3: "\<not> list_ex (\<lambda>p. py_in p (py_lower ''My blue paint arrived DAMAGED'')) product_phrases"
    by code_simp
  from h1 h2 h3 policy_override_after_product [OF h1 h2] show ?thesis by simp
qed

text \<open>
  C3. When no override phrase occurs, the scores decide: ProductLookupAgent when the product
  score is strictly greater, KnowledgeAgent when it is not and the policy score is positive,
  ProductLookupAgent when both scores are zero. The classifier is a total function, and its
  answer is one of these two names. The witness runs the three cases, and a text where a
  letter beyond ASCII follows a keyword, so that no pattern matches.
\<close>

theorem scores_decide_without_override:
  assumes "\<not> list_ex (\<lambda>p. py_in p (py_lower user_text)) (product_phrases @ policy_phrases)"
  shows "(score policy_patterns (py_lower user_text) < score product_patterns (py_lower user_text)
            \<longrightarrow> fst (determine_target_agent user_text) = ''ProductLookupAgent'')
       \<and> (\<not> score policy_patterns (py_lower user_text) < score product_patterns (py_lower user_text)
            \<and> 0 < score policy_patterns (py_lower user_text)
            \<longrightarrow> fst (determine_target_agent user_text) = ''KnowledgeAgent'')
       \<and> (score product_patterns (py_lower user_text) = 0
            \<and> score policy_patterns (py_lower user_text) = 0
            \<longrightarrow> fst (determine_target_agent user_text) = ''ProductLookupAgent'')
       \<and> fst (determine_target_agent user_text) \<in> {''ProductLookupAgent'', ''KnowledgeAgent''}"
proof -
  from assms have no_product: "\<not> list_ex (\<lambda>p. py_in p (py_lower user_text)) product_phrases"
    and no_policy: "\<not> list_ex (\<lambda>p. py_in p (py_lower user_text)) policy_phrases"
    unfolding list_ex_iff by auto
  show ?thesis
    unfolding determine_target_agent_def Let_def using no_product no_policy by simp
qed

theorem scores_decide_without_override_witness:
  "(\<not> list_ex (\<lambda>p. py_in p (py_lower ''Show me blue paint'')) (product_phrases @ policy_phrases)
    \<and> score policy_patterns (py_lower ''Show me blue paint'')
        < score product_patterns (py_lower ''Show me blue paint'')
    \<and> fst (determine_target_agent ''Show me blue paint'') = ''ProductLookupAgent'')
   \<and> (\<not> list_ex (\<lambda>p. py_in p (py_lower ''Track my paint order'')) (product_phrases @ policy_phrases)
    \<and> \<not> score policy_patterns (py_lower ''Track my paint order'')
        < score product_patterns (py_lower ''Track my paint order'')
    \<and> 0 < score policy_patterns (py_lower ''Track my paint order'')
    \<and> fst (determine_target_agent ''Track my paint order'') = ''KnowledgeAgent'')
   \<and> (\<not> list_ex (\<lambda>p. py_in p (py_lower ''hello there'')) (product_phrases @ policy_phrases)
    \<and> score product_patterns (py_lower ''hello there'') = 0
    \<and> score policy_patterns (py_lower ''hello there'') = 0
    \<and> fst (determine_target_agent ''hello there'') = ''ProductLookupAgent'')
   \<and> (\<not> list_ex (\<lambda>p. py_in p (py_lower (''ship'' @ [CHR 0xE9]))) (product_phrases @ policy_phrases)
    \<and> score product_patterns (py_lower (''ship'' @ [CHR 0xE9])) = 0
    \<and> score policy_patterns (py_lower (''ship'' @ [CHR 0xE9])) = 0
    \<and> fst (determine_target_agent (''ship'' @ [CHR 0xE9])) = ''ProductLookupAgent'')"
proof -
  have a1: "\<not> list_ex (\<lambda>p. py_in p (py_lower ''Show me blue paint'')) (product_phrases @ policy_phrases)"
    by code_simp
  have a2: "score policy_patterns (py_lower ''Show me blue paint'')
              < score product_patterns (py_lower ''Show me blue paint'')"
    by code_simp
  have b1: "\<not> list_ex (\<lambda>p. py_in p (py_lower ''Track my paint order'')) (product_phrases @ policy_phrases)"
    by code_simp
  have b2: "\<not> score policy_patterns (py_lower ''Track my paint order'')
              < score product_patterns (py_lower ''Track my paint order'')"
    by code_simp
  have b3: "0 < score policy_patterns (py_lower ''Track my paint order'')"
    by code_simp
  have c1: "\<not> list_ex (\<lambda>p. py_in p (py_lower ''hello there'')) (product_phrases @ policy_phrases)"
    by code_simp
  have c2: "score product_patterns (py_lower ''hello there'') = 0"
    by code_simp
  have c3: "score policy_patterns (py_lower ''hello there'') = 0"
    by code_simp
  have d1: "\<not> list_ex (\<lambda>p. py_in p (py_lower (''ship'' @ [CHR 0xE9]))) (product_phrases @ policy_phrases)"
    by code_simp
  have d2: "score product_patterns (py_lower (''ship'' @ [CHR 0xE9])) = 0"
    by code_simp
  have d3: "score policy_patterns (py_lower (''ship'' @ [CHR 0xE9])) = 0"
    by code_simp
  from scores_decide_without_override [OF d1] d2 d3
  have d: "fst (determine_target_agent (''ship'' @ [CHR 0xE9])) = ''ProductLookupAgent''" by blast
  from scores_decide_without_override [OF a1] a2
  have a: "fst (determine_target_agent ''Show me blue paint'') = ''ProductLookupAgent''" by blast
  from scores_decide_without_override [OF b1] b2 b3
  have b: "fst (determine_target_agent ''Track my paint order'') = ''KnowledgeAgent''" by blast
  from scores_decide_without_override [OF c1] c2 c3
  have c: "fst (determine_target_agent ''hello there'') = ''ProductLookupAgent''" by blast
  from a1 a2 a b1 b2 b3 b c1 c2 c3 c d1 d2 d3 d show ?thesis by blast
qed

text \<open>
  C10. The classifier answers ProductLookupAgent or KnowledgeAgent on every text, never
  OrderStatusAgent. The order vocabulary (ship, delivery, track, cancel, order status) is
  part of the policy patterns: each of these words alone is routed to KnowledgeAgent.
\<close>

theorem never_order_status_agent:
  "fst (determine_target_agent user_text) \<in> {''ProductLookupAgent'', ''KnowledgeAgent''}
   \<and> fst (determine_target_agent user_text) \<noteq> ''OrderStatusAgent''
   \<and> fst (determine_target_agent ''ship'') = ''KnowledgeAgent''
   \<and> fst (determine_target_agent ''delivery'') = ''KnowledgeAgent''
   \<and> fst (determine_target_agent ''track'') = ''KnowledgeAgent''
   \<and> fst (determine_target_agent ''cancel'') = ''KnowledgeAgent''
   \<and> fst (determine_target_agent ''order status'') = ''KnowledgeAgent''"
proof -
  have range: "fst (determine_target_agent user_text) \<in> {''ProductLookupAgent'', ''KnowledgeAgent''}"
    unfolding determine_target_agent_def Let_def by simp
  then have other: "fst (determine_target_agent user_text) \<noteq> ''OrderStatusAgent''"
    by auto
  have w1: "fst (determine_target_agent ''ship'') = ''KnowledgeAgent''" by code_simp
  have w2: "fst (determine_target_agent ''delivery'') = ''KnowledgeAgent''" by code_simp
  have w3: "fst (determine_target_agent ''track'') = ''KnowledgeAgent''" by code_simp
  have w4: "fst (determine_target_agent ''cancel'') = ''KnowledgeAgent''" by code_simp
  have w5: "fst (determine_target_agent ''order status'') = ''KnowledgeAgent''" by code_simp
  from range other w1 w2 w3 w4 w5 show ?thesis by blast
qed

section \<open>Facts about the thread cache\<close>

lemma dropWhile_sorted_filter:
  "sorted (map f xs) \<Longrightarrow> dropWhile (\<lambda>x. \<not> t < f x) xs = filter (\<lambda>x. (t::real) < f x) xs"
proof (induction xs)
  case Nil
  then show ?case by simp
next
  case (Cons x xs)
  show ?case
  proof (cases "t < f x")
    case True
    with Cons.prems have "\<forall>y\<in>set xs. t < f y" by fastforce
    then have "filter (\<lambda>x. t < f x) xs = xs" by (simp add: filter_id_conv)
    with True show ?thesis by simp
  next
    case False
    with Cons show ?thesis by simp
  qed
qed

lemma takeWhile_sorted_filter:
  "sorted (map f xs) \<Longrightarrow> takeWhile (\<lambda>x. \<not> t < f x) xs = filter (\<lambda>x. \<not> (t::real) < f x) xs"
proof (induction xs)
  case Nil
  then show ?case by simp
next
  case (Cons x xs)
  show ?case
  proof (cases "t < f x")
    case True
    with Cons.prems have "\<forall>y\<in>set xs. t < f y" by fastforce
    then have "filter (\<lambda>x. \<not> t < f x) xs = []" by (simp add: filter_empty_conv)
    with True show ?thesis by simp
  next
    case False
    with Cons show ?thesis by simp
  qed
qed

lemma expire_split: "(\<lambda>(key, v, expires). \<not> t < expires) = (\<lambda>x. \<not> t < expires_of x)"
  by (auto simp: expires_of_def fun_eq_iff)

lemma TTLCache_expire_inv:
  assumes "cache_inv pf t0 c"
  shows "TTLCache_expire t c =
           (map (\<lambda>x. (fst x, fst (snd x))) (filter (\<lambda>x. \<not> t < expires_of x) (entries c)),
            c\<lparr>entries := live t (entries c),
              lru := filter (\<lambda>k. k \<in> set (map fst (live t (entries c)))) (lru c)\<rparr>)"
proof -
  from assms have srt: "sorted (map expires_of (entries c))"
    and dist: "distinct (map fst (entries c))"
    and keys: "set (lru c) = set (map fst (entries c))"
    unfolding cache_inv_def by auto
  have tw: "takeWhile (\<lambda>x. \<not> t < expires_of x) (entries c) = filter (\<lambda>x. \<not> t < expires_of x) (entries c)"
    using srt by (rule takeWhile_sorted_filter)
  have dw: "dropWhile (\<lambda>x. \<not> t < expires_of x) (entries c) = live t (entries c)"
    unfolding live_def using srt by (rule dropWhile_sorted_filter)
  have m: "map (\<lambda>(key, v, expires). (key, v)) xs = map (\<lambda>x. (fst x, fst (snd x))) xs" for xs :: "(string \<times> string \<times> time) list"
    by (induction xs) auto
  have l: "filter (\<lambda>key. key \<notin> set (map fst (filter (\<lambda>x. \<not> t < expires_of x) (entries c)))) (lru c)
         = filter (\<lambda>k. k \<in> set (map fst (live t (entries c)))) (lru c)"
  proof (rule filter_cong[OF refl])
    fix k assume "k \<in> set (lru c)"
    with keys have kin: "k \<in> set (map fst (entries c))" by simp
    show "(k \<notin> set (map fst (filter (\<lambda>x. \<not> t < expires_of x) (entries c))))
        = (k \<in> set (map fst (live t (entries c))))"
    proof
      assume a: "k \<notin> set (map fst (filter (\<lambda>x. \<not> t < expires_of x) (entries c)))"
      from kin obtain x where "x \<in> set (entries c)" "fst x = k" by auto
      with a have "t < expires_of x" by force
      with \<open>x \<in> set (entries c)\<close> \<open>fst x = k\<close> show "k \<in> set (map fst (live t (entries c)))"
        unfolding live_def by force
    next
      assume "k \<in> set (map fst (live t (entries c)))"
      then obtain x where x: "x \<in> set (entries c)" "fst x = k" "t < expires_of x"
        unfolding live_def by auto
      show "k \<notin> set (map fst (filter (\<lambda>x. \<not> t < expires_of x) (entries c)))"
      proof
        assume "k \<in> set (map fst (filter (\<lambda>x. \<not> t < expires_of x) (entries c)))"
        then obtain y where y: "y \<in> set (entries c)" "fst y = k" "\<not> t < expires_of y" by auto
        from dist x(1,2) y(1,2) have "x = y"
          by (metis eq_key_imp_eq_value prod.collapse)
        with x(3) y(3) show False by simp
      qed
    qed
  qed
  show ?thesis
    unfolding TTLCache_expire_def Let_def expire_split tw dw m l ..
qed

lemma guarded_log_contained:
  assumes "log_contained pf"
  shows "guarded_log pf msg on_error = (None, [hook_event pf msg on_error])"
proof (cases "log_call pf INFO msg")
  case None
  then show ?thesis unfolding guarded_log_def hook_event_def by simp
next
  case (Some e)
  with assms have "is_Exception e" and "log_call pf ERROR (on_error e) = None"
    unfolding log_contained_def by auto
  with Some show ?thesis unfolding guarded_log_def hook_event_def by simp
qed

lemma expire_logs_contained:
  assumes "log_contained pf"
  shows "expire_logs pf items = (None, map (\<lambda>x. expire_event pf (snd x)) items)"
proof (induction items)
  case Nil
  then show ?case by simp
next
  case (Cons x items)
  obtain key thread_id where x: "x = (key, thread_id)" by (cases x)
  have "expire_log pf thread_id = (None, [expire_event pf thread_id])"
    unfolding expire_log_def expire_event_def by (rule guarded_log_contained[OF assms])
  with Cons x show ?case by simp
qed

lemma ThreadCache_expire_inv:
  assumes "cache_inv pf t0 c" and "log_contained pf"
  shows "ThreadCache_expire pf t c =
           (Inr (map (\<lambda>x. (fst x, fst (snd x))) (filter (\<lambda>x. \<not> t < expires_of x) (entries c))),
            purged t c,
            map (\<lambda>x. expire_event pf (fst (snd x))) (filter (\<lambda>x. \<not> t < expires_of x) (entries c)))"
  unfolding ThreadCache_expire_def TTLCache_expire_inv[OF assms(1)] purged_def
    expire_logs_contained[OF assms(2)]
  by (simp add: comp_def)

lemma live_live: "live t (live t es) = live t es"
  unfolding live_def by simp

lemma sorted_filter_map: "sorted (map f xs) \<Longrightarrow> sorted (map f (filter P xs))"
  by (induction xs) auto

lemma purged_inv:
  assumes "cache_inv pf t0 c" and "t0 \<le> t" and "add_monotone pf"
  shows "cache_inv pf t (purged t c)"
    and "live t (entries (purged t c)) = entries (purged t c)"
    and "maxsize (purged t c) = maxsize c" and "ttl (purged t c) = ttl c"
proof -
  from assms(1) have dist: "distinct (map fst (entries c))" and dl: "distinct (lru c)"
    and keys: "set (lru c) = set (map fst (entries c))"
    and srt: "sorted (map expires_of (entries c))"
    and bound: "list_all (\<lambda>x. expires_of x \<le> float_add pf t0 (ttl c)) (entries c)"
    and m1: "1 \<le> maxsize c" and len: "length (entries c) \<le> maxsize c"
    unfolding cache_inv_def by auto
  from assms(2,3) have mono: "float_add pf t0 (ttl c) \<le> float_add pf t (ttl c)"
    unfolding add_monotone_def by blast
  have sub: "set (map fst (live t (entries c))) \<subseteq> set (lru c)"
    using keys unfolding live_def by auto
  have "length (live t (entries c)) \<le> length (entries c)"
    unfolding live_def by simp
  moreover have "list_all (\<lambda>x. expires_of x \<le> float_add pf t (ttl c)) (live t (entries c))"
    using bound mono unfolding live_def list_all_iff by fastforce
  moreover have "distinct (map fst (live t (entries c)))"
    using dist unfolding live_def by (simp add: distinct_map_filter)
  moreover have "sorted (map expires_of (live t (entries c)))"
    using srt unfolding live_def by (rule sorted_filter_map)
  moreover have "set (filter (\<lambda>k. k \<in> set (map fst (live t (entries c)))) (lru c))
                 = set (map fst (live t (entries c)))"
    using sub by auto
  ultimately show "cache_inv pf t (purged t c)"
    using dl m1 len unfolding cache_inv_def purged_def by simp
  show "live t (entries (purged t c)) = entries (purged t c)"
    unfolding purged_def by (simp add: live_live)
  show "maxsize (purged t c) = maxsize c" "ttl (purged t c) = ttl c"
    unfolding purged_def by simp_all
qed

lemma purged_idem:
  assumes "live t (entries c) = entries c" and "set (lru c) = set (map fst (entries c))"
  shows "purged t c = c"
proof -
  have "filter (\<lambda>k. k \<in> set (map fst (entries c))) (lru c) = lru c"
    using assms(2) by (simp add: filter_id_conv)
  then show ?thesis unfolding purged_def assms(1) by simp
qed

lemma no_expired_when_live:
  assumes "live t es = es"
  shows "filter (\<lambda>x. \<not> t < expires_of x) es = []"
proof -
  from assms have "\<forall>x\<in>set es. t < expires_of x"
    unfolding live_def by (metis (mono_tags, lifting) filter_id_conv)
  then show ?thesis by (simp add: filter_empty_conv)
qed

lemma popitem_inv:
  assumes inv: "cache_inv pf t c" and lv: "live t (entries c) = entries c" and ne: "entries c \<noteq> []"
    and lc: "log_contained pf"
  shows "\<exists>v e. map_of (entries c) (hd (lru c)) = Some (v, e)
           \<and> ThreadCache_popitem pf t c = (Inr (hd (lru c), v), evicted c, [evict_event pf v])"
proof -
  from inv have dist: "distinct (map fst (entries c))" and dl: "distinct (lru c)"
    and keys: "set (lru c) = set (map fst (entries c))"
    unfolding cache_inv_def by auto
  from ne keys have "lru c \<noteq> []" by auto
  then obtain k rest where l: "lru c = k # rest" by (cases "lru c") auto
  with keys have "k \<in> set (map fst (entries c))" by auto
  then obtain v e where m: "map_of (entries c) k = Some (v, e)"
    by (metis map_of_eq_None_iff not_Some_eq prod.collapse set_map)
  then have "(k, v, e) \<in> set (entries c)" by (rule map_of_SomeD)
  with lv have te: "t < e" unfolding live_def expires_of_def
    by (metis (mono_tags, lifting) filter_id_conv snd_conv)
  have ex: "ThreadCache_expire pf t c = (Inr [], c, [])"
    unfolding ThreadCache_expire_inv[OF inv lc] no_expired_when_live[OF lv] purged_idem[OF lv keys]
    by simp
  have el: "evict_log pf v = (None, [evict_event pf v])"
    unfolding evict_log_def evict_event_def by (rule guarded_log_contained[OF lc])
  from dl l have rm: "removeAll k rest = rest" by simp
  have pop: "Cache_pop t c k = (Inr v, evicted c)"
    unfolding Cache_pop_def TTLCache_contains_def TTLCache_getitem_def TTLCache_delitem_def Let_def evicted_def
    using l m te rm by simp
  have "ThreadCache_popitem pf t c = (Inr (k, v), evicted c, [evict_event pf v])"
    unfolding ThreadCache_popitem_def TTLCache_popitem_def Let_def ex
    using l pop el by simp
  with m l show ?thesis by simp
qed

lemma evicted_inv:
  assumes inv: "cache_inv pf t c" and ne: "entries c \<noteq> []"
  shows "cache_inv pf t (evicted c)"
    and "length (entries (evicted c)) < length (entries c)"
    and "live t (entries c) = entries c \<Longrightarrow> live t (entries (evicted c)) = entries (evicted c)"
proof -
  from inv have dist: "distinct (map fst (entries c))" and dl: "distinct (lru c)"
    and keys: "set (lru c) = set (map fst (entries c))"
    and srt: "sorted (map expires_of (entries c))"
    and bound: "list_all (\<lambda>x. expires_of x \<le> float_add pf t (ttl c)) (entries c)"
    and m1: "1 \<le> maxsize c" and len: "length (entries c) \<le> maxsize c"
    unfolding cache_inv_def by auto
  from ne keys have "lru c \<noteq> []" by auto
  then obtain k rest where l: "lru c = k # rest" by (cases "lru c") auto
  with keys have kin: "k \<in> set (map fst (entries c))" by auto
  have e: "evicted c = c\<lparr>entries := filter (\<lambda>x. fst x \<noteq> k) (entries c), lru := rest\<rparr>"
    unfolding evicted_def l by simp
  from kin obtain x where x: "x \<in> set (entries c)" "fst x = k" by auto
  then have lt: "length (filter (\<lambda>x. fst x \<noteq> k) (entries c)) < length (entries c)"
    by (intro length_filter_less[where x = x]) auto
  then show "length (entries (evicted c)) < length (entries c)"
    unfolding e by simp
  have k1: "set (map fst (filter (\<lambda>x. fst x \<noteq> k) (entries c))) = set (map fst (entries c)) - {k}"
    by auto
  from dl l have k2: "set rest = set (lru c) - {k}" by auto
  have "distinct (map fst (filter (\<lambda>x. fst x \<noteq> k) (entries c)))"
    using dist by (simp add: distinct_map_filter)
  moreover have "sorted (map expires_of (filter (\<lambda>x. fst x \<noteq> k) (entries c)))"
    using srt by (rule sorted_filter_map)
  moreover have "list_all (\<lambda>x. expires_of x \<le> float_add pf t (ttl c)) (filter (\<lambda>x. fst x \<noteq> k) (entries c))"
    using bound unfolding list_all_iff by auto
  moreover have "distinct rest" using dl l by simp
  moreover have "set rest = set (map fst (filter (\<lambda>x. fst x \<noteq> k) (entries c)))"
    unfolding k1 k2 keys ..
  moreover have "length (filter (\<lambda>x. fst x \<noteq> k) (entries c)) \<le> maxsize c"
    using lt len by linarith
  ultimately show "cache_inv pf t (evicted c)"
    unfolding e cache_inv_def using m1 by simp
  show "live t (entries (evicted c)) = entries (evicted c)" if lv: "live t (entries c) = entries c"
  proof -
    from lv have "\<forall>x\<in>set (entries c). t < expires_of x"
      unfolding live_def by (metis (mono_tags, lifting) filter_id_conv)
    then show ?thesis unfolding e live_def by (auto intro: filter_cong)
  qed
qed

lemma make_room_inv:
  assumes inv: "cache_inv pf t c" and lv: "live t (entries c) = entries c"
    and lc: "log_contained pf"
  shows "make_room pf t c =
           (if length (entries c) < maxsize c then (Inr (), c, [])
            else (Inr (), evicted c, [evict_event pf (victim_value c)]))"
proof (cases "length (entries c) < maxsize c")
  case True
  then show ?thesis by (subst make_room.simps) simp
next
  case False
  from inv have m1: "1 \<le> maxsize c" and len: "length (entries c) \<le> maxsize c"
    unfolding cache_inv_def by auto
  with False have full: "length (entries c) = maxsize c" by simp
  with m1 have ne: "entries c \<noteq> []" by auto
  from popitem_inv[OF inv lv ne lc] obtain v e where
    m: "map_of (entries c) (hd (lru c)) = Some (v, e)"
    and pop: "ThreadCache_popitem pf t c = (Inr (hd (lru c), v), evicted c, [evict_event pf v])"
    by blast
  from m have vv: "victim_value c = v" unfolding victim_value_def by simp
  have "maxsize (evicted c) = maxsize c" unfolding evicted_def by simp
  with evicted_inv(2)[OF inv ne] full have "length (entries (evicted c)) < maxsize (evicted c)"
    by simp
  then have stop: "make_room pf t (evicted c) = (Inr (), evicted c, [])"
    by (subst make_room.simps) simp
  have "make_room pf t c = (Inr (), evicted c, [evict_event pf v])"
    by (subst make_room.simps) (simp add: full pop stop)
  with False vv show ?thesis by simp
qed

lemma setitem_inv:
  assumes inv: "cache_inv pf t0 c" and le: "t0 \<le> t"
    and lc: "log_contained pf" and am: "add_monotone pf"
  shows "ThreadCache_setitem pf t c key val = (Inr (), after_put pf t key val c, put_events pf t key c)"
proof -
  note p = purged_inv[OF inv le am]
  from p(1) have m1: "\<not> maxsize (purged t c) < 1" unfolding cache_inv_def by simp
  show ?thesis
    unfolding ThreadCache_setitem_def ThreadCache_expire_inv[OF inv lc] Let_def after_put_def put_events_def
    using m1 by (simp add: make_room_inv[OF p(1) p(2) lc] stored_def)
qed

lemma stored_inv:
  assumes inv: "cache_inv pf t c"
    and room: "key \<in> set (map fst (entries c)) \<or> length (entries c) < maxsize c"
  shows "cache_inv pf t (stored pf t key val c)"
proof -
  from inv have dist: "distinct (map fst (entries c))" and dl: "distinct (lru c)"
    and keys: "set (lru c) = set (map fst (entries c))"
    and srt: "sorted (map expires_of (entries c))"
    and bound: "list_all (\<lambda>x. expires_of x \<le> float_add pf t (ttl c)) (entries c)"
    and m1: "1 \<le> maxsize c" and len: "length (entries c) \<le> maxsize c"
    unfolding cache_inv_def by auto
  let ?es = "filter (\<lambda>x. fst x \<noteq> key) (entries c)"
  have d: "distinct (map fst (?es @ [(key, val, float_add pf t (ttl c))]))"
    using dist by (auto simp: distinct_map_filter)
  have s: "sorted (map expires_of (?es @ [(key, val, float_add pf t (ttl c))]))"
    using sorted_filter_map[OF srt, of "\<lambda>x. fst x \<noteq> key"] bound
    unfolding list_all_iff by (auto simp: sorted_append expires_of_def)
  have b: "list_all (\<lambda>x. expires_of x \<le> float_add pf t (ttl c)) (?es @ [(key, val, float_add pf t (ttl c))])"
    using bound unfolding list_all_iff by (auto simp: expires_of_def)
  have k: "set (removeAll key (lru c) @ [key]) = set (map fst (?es @ [(key, val, float_add pf t (ttl c))]))"
    using keys by auto
  have dl': "distinct (removeAll key (lru c) @ [key])"
    using dl by (simp add: distinct_removeAll)
  have l: "length (?es @ [(key, val, float_add pf t (ttl c))]) \<le> maxsize c"
  proof (cases "key \<in> set (map fst (entries c))")
    case True
    then obtain x where "x \<in> set (entries c)" "fst x = key" by auto
    then have "length ?es < length (entries c)"
      by (intro length_filter_less[where x = x]) auto
    with len show ?thesis by simp
  next
    case False
    with room have "length (entries c) < maxsize c" by simp
    moreover have "length ?es \<le> length (entries c)" by (rule length_filter_le)
    ultimately show ?thesis by (simp del: length_filter_le)
  qed
  show ?thesis
    unfolding cache_inv_def stored_def using d s b k dl' l m1 by simp
qed

lemma after_put_inv:
  assumes inv: "cache_inv pf t0 c" and le: "t0 \<le> t" and am: "add_monotone pf"
  shows "cache_inv pf t (after_put pf t key val c)"
proof -
  note p = purged_inv[OF inv le am]
  show ?thesis
  proof (cases "key \<in> set (map fst (entries (purged t c))) \<or> length (entries (purged t c)) < maxsize (purged t c)")
    case True
    then show ?thesis unfolding after_put_def Let_def using stored_inv[OF p(1)] by simp
  next
    case False
    from p(1) have m1: "1 \<le> maxsize (purged t c)" and len: "length (entries (purged t c)) \<le> maxsize (purged t c)"
      unfolding cache_inv_def by auto
    with False have ne: "entries (purged t c) \<noteq> []" by auto
    have "length (entries (evicted (purged t c))) < maxsize (evicted (purged t c))"
      using evicted_inv(2)[OF p(1) ne] len unfolding evicted_def by simp
    then have "cache_inv pf t (stored pf t key val (evicted (purged t c)))"
      using stored_inv[OF evicted_inv(1)[OF p(1) ne]] by simp
    with False show ?thesis unfolding after_put_def Let_def by simp
  qed
qed

lemma touched_inv:
  assumes "cache_inv pf t c" and "key \<in> set (lru c)"
  shows "cache_inv pf t (touched key c)"
proof -
  from assms have "set (removeAll key (lru c) @ [key]) = set (lru c)" by auto
  moreover from assms have "distinct (removeAll key (lru c) @ [key])"
    unfolding cache_inv_def by (simp add: distinct_removeAll)
  ultimately show ?thesis
    using assms(1) unfolding cache_inv_def touched_def by simp
qed

lemma get_inv:
  assumes inv: "cache_inv pf t0 c"
  shows "Cache_get t c key =
           (case map_of (entries c) key of
              None \<Rightarrow> (Inr None, c)
            | Some (v, e) \<Rightarrow> if t < e then (Inr (Some v), touched key c) else (Inr None, c))"
proof (cases "map_of (entries c) key")
  case None
  then show ?thesis
    unfolding Cache_get_def TTLCache_contains_def by simp
next
  case (Some ve)
  obtain v e where ve: "ve = (v, e)" by (cases ve)
  from Some have "key \<in> set (map fst (entries c))"
    by (metis map_of_eq_None_iff option.distinct(1) set_map)
  with inv have "key \<in> set (lru c)" unfolding cache_inv_def by simp
  with Some ve show ?thesis
    unfolding Cache_get_def TTLCache_contains_def TTLCache_getitem_def Let_def touched_def
    by simp
qed

lemma get_keeps_inv:
  assumes inv: "cache_inv pf t0 c"
  shows "cache_inv pf t0 (snd (Cache_get t c key))"
    and "entries (snd (Cache_get t c key)) = entries c"
    and "\<exists>r. fst (Cache_get t c key) = Inr r"
proof -
  have k: "key \<in> set (lru c)" if "map_of (entries c) key = Some ve" for ve
  proof -
    from that have "key \<in> set (map fst (entries c))"
      by (metis map_of_eq_None_iff option.distinct(1) set_map)
    with inv show ?thesis unfolding cache_inv_def by simp
  qed
  show "cache_inv pf t0 (snd (Cache_get t c key))"
    unfolding get_inv[OF inv] using inv touched_inv[OF inv k]
    by (auto split: option.splits)
  show "entries (snd (Cache_get t c key)) = entries c"
    unfolding get_inv[OF inv] by (auto split: option.splits simp: touched_def)
  show "\<exists>r. fst (Cache_get t c key) = Inr r"
    unfolding get_inv[OF inv] by (auto split: option.splits)
qed

lemma cache_inv_mono:
  assumes "cache_inv pf t0 c" and "t0 \<le> t" and "add_monotone pf"
  shows "cache_inv pf t c"
proof -
  from assms(2,3) have "float_add pf t0 (ttl c) \<le> float_add pf t (ttl c)"
    unfolding add_monotone_def by blast
  with assms(1) show ?thesis
    unfolding cache_inv_def list_all_iff by fastforce
qed

lemma put_events_no_invoke: "\<forall>e\<in>set (put_events pf t key c). \<not> is_invoke e"
  unfolding put_events_def expire_event_def evict_event_def hook_event_def Let_def
  by (auto split: option.splits)

lemma determine_no_invoke: "\<forall>e\<in>set (snd (determine_target_agent u)). \<not> is_invoke e"
  unfolding determine_target_agent_def Let_def by simp

lemma after_put_fields: "ttl (after_put pf t key val c) = ttl c" "maxsize (after_put pf t key val c) = maxsize c"
  unfolding after_put_def Let_def stored_def evicted_def purged_def by simp_all

lemma drain_inv:
  assumes "cache_inv pf t0 c" and "sorted (t0 # map fst msgs)"
    and "log_contained pf" and "add_monotone pf"
  shows "\<exists>c1 ev. drain pf cid name msgs acc c = (Inr (acc @ stream_text msgs), c1, ev)
           \<and> cache_inv pf (last (t0 # map fst msgs)) c1 \<and> ttl c1 = ttl c \<and> maxsize c1 = maxsize c
           \<and> (\<forall>e\<in>set ev. \<not> is_invoke e)"
  using assms
proof (induction msgs arbitrary: t0 c acc)
  case Nil
  then show ?case by (simp add: stream_text_def)
next
  case (Cons x msgs)
  obtain t m where x: "x = (t, m)" by (cases x)
  from Cons.prems(2) x have le: "t0 \<le> t" and srt: "sorted (t # map fst msgs)" by auto
  let ?acc = "if truthy (content m) then acc @ the (content m) else acc"
  have acc: "?acc = acc @ fragment m"
    unfolding fragment_def by (cases "content m") auto
  have stxt: "acc @ stream_text (x # msgs) = (acc @ fragment m) @ stream_text msgs"
    unfolding stream_text_def x by simp
  have lst: "last (t0 # map fst (x # msgs)) = last (t # map fst msgs)"
    unfolding x by simp
  show ?case
  proof (cases "truthy cid \<and> thread m \<noteq> None")
    case True
    let ?key = "cache_key_of (the cid) name"
    let ?c = "after_put pf t ?key (the (thread m)) c"
    have inv: "cache_inv pf t ?c" using after_put_inv[OF Cons.prems(1) le Cons.prems(4)] .
    from Cons.IH[OF inv srt Cons.prems(3,4), of "acc @ fragment m"] obtain c1 ev where
      d: "drain pf cid name msgs (acc @ fragment m) ?c = (Inr ((acc @ fragment m) @ stream_text msgs), c1, ev)"
      and i: "cache_inv pf (last (t # map fst msgs)) c1" and f: "ttl c1 = ttl ?c" "maxsize c1 = maxsize ?c"
      and n: "\<forall>e\<in>set ev. \<not> is_invoke e" by blast
    have "drain pf cid name (x # msgs) acc c =
            (Inr ((acc @ fragment m) @ stream_text msgs), c1,
             CacheSet ?key (the (thread m)) # put_events pf t ?key c @ ev)"
      unfolding x using True acc d
      by (simp add: Let_def setitem_inv[OF Cons.prems(1) le Cons.prems(3,4)])
    with i f n put_events_no_invoke[of pf t ?key c] show ?thesis
      unfolding stxt lst by (auto simp: after_put_fields)
  next
    case False
    from Cons.IH[OF cache_inv_mono[OF Cons.prems(1) le Cons.prems(4)] srt Cons.prems(3,4), of "acc @ fragment m"]
    obtain c1 ev where
      d: "drain pf cid name msgs (acc @ fragment m) c = (Inr ((acc @ fragment m) @ stream_text msgs), c1, ev)"
      and i: "cache_inv pf (last (t # map fst msgs)) c1" and f: "ttl c1 = ttl c" "maxsize c1 = maxsize c"
      and n: "\<forall>e\<in>set ev. \<not> is_invoke e" by blast
    have "drain pf cid name (x # msgs) acc c = (Inr ((acc @ fragment m) @ stream_text msgs), c1, ev)"
      unfolding x using False acc d by (auto simp: Let_def)
    with i f n show ?thesis unfolding stxt lst by auto
  qed
qed

section \<open>Facts about \<open>respond\<close>\<close>

lemma guarded_log_no_invoke:
  "guarded_log pf msg on_error = (r, ev) \<Longrightarrow> \<forall>e\<in>set ev. \<not> is_invoke e"
  unfolding guarded_log_def by (auto split: option.splits if_splits)

lemma expire_logs_no_invoke:
  "expire_logs pf items = (r, ev) \<Longrightarrow> \<forall>e\<in>set ev. \<not> is_invoke e"
proof (induction items arbitrary: r ev)
  case Nil
  then show ?case by simp
next
  case (Cons x items)
  obtain key thread_id where x: "x = (key, thread_id)" by (cases x)
  obtain r0 ev0 where g: "expire_log pf thread_id = (r0, ev0)"
    by (cases "expire_log pf thread_id") auto
  from g have n0: "\<forall>e\<in>set ev0. \<not> is_invoke e"
    unfolding expire_log_def by (rule guarded_log_no_invoke)
  obtain r1 ev1 where l: "expire_logs pf items = (r1, ev1)"
    by (cases "expire_logs pf items") auto
  note n1 = Cons.IH[OF l]
  from Cons.prems x g l n0 n1 show ?case
    by (auto split: option.splits)
qed

lemma expire_no_invoke:
  "ThreadCache_expire pf t c = (r, c1, ev) \<Longrightarrow> \<forall>e\<in>set ev. \<not> is_invoke e"
  unfolding ThreadCache_expire_def Let_def
  by (auto split: prod.splits option.splits dest: expire_logs_no_invoke)

lemma popitem_no_invoke:
  assumes "ThreadCache_popitem pf t c = (r, c1, ev)"
  shows "\<forall>e\<in>set ev. \<not> is_invoke e"
proof -
  obtain items c0 ev0 where ex: "ThreadCache_expire pf t c = (items, c0, ev0)"
    by (cases "ThreadCache_expire pf t c") auto
  from expire_no_invoke[OF ex] have n0: "\<forall>e\<in>set ev0. \<not> is_invoke e" .
  have n1: False if "evict_log pf h = (r1, ev1)" and "e \<in> set ev1" and "is_invoke e" for h r1 ev1 e
    using that guarded_log_no_invoke[of pf _ _ r1 ev1] unfolding evict_log_def by blast
  from assms n0 show ?thesis
    unfolding ThreadCache_popitem_def TTLCache_popitem_def ex
    by (auto split: prod.splits sum.splits list.splits option.splits dest: n1)
qed

lemma make_room_no_invoke:
  "make_room pf t c = (r, c1, ev) \<Longrightarrow> \<forall>e\<in>set ev. \<not> is_invoke e"
proof (induction pf t c arbitrary: r c1 ev rule: make_room.induct)
  case (1 pf t c)
  show ?case
  proof (cases "maxsize c < length (entries c) + 1")
    case False
    with "1.prems" show ?thesis by (subst (asm) make_room.simps) simp
  next
    case True
    obtain r0 c0 ev0 where pop: "ThreadCache_popitem pf t c = (r0, c0, ev0)"
      by (cases "ThreadCache_popitem pf t c") auto
    note n0 = popitem_no_invoke[OF pop]
    show ?thesis
    proof (cases r0)
      case (Inl e)
      with "1.prems" True pop n0 show ?thesis
        by (subst (asm) make_room.simps) auto
    next
      case (Inr item)
      obtain r2 c2 ev2 where mr: "make_room pf t c0 = (r2, c2, ev2)"
        by (cases "make_room pf t c0") auto
      from "1.IH"[OF True pop[symmetric] Inr refl mr]
      have n2: "\<forall>e\<in>set ev2. \<not> is_invoke e" .
      from "1.prems" True pop Inr mr have "ev = ev0 @ ev2"
        by (subst (asm) make_room.simps) auto
      with n0 n2 show ?thesis by auto
    qed
  qed
qed

lemma setitem_no_invoke:
  assumes "ThreadCache_setitem pf t c key val = (r, c1, ev)"
  shows "\<forall>e\<in>set ev. \<not> is_invoke e"
proof -
  obtain items c0 ev0 where ex: "ThreadCache_expire pf t c = (items, c0, ev0)"
    by (cases "ThreadCache_expire pf t c") auto
  note n0 = expire_no_invoke[OF ex]
  obtain r2 c2 ev2 where mr: "make_room pf t c0 = (r2, c2, ev2)"
    by (cases "make_room pf t c0") auto
  note n2 = make_room_no_invoke[OF mr]
  from assms n0 n2 show ?thesis
    unfolding ThreadCache_setitem_def ex
    by (auto simp: mr split: if_splits sum.splits)
qed

lemma drain_no_invoke:
  "drain pf cid name msgs acc c = (r, c1, ev) \<Longrightarrow> \<forall>e\<in>set ev. \<not> is_invoke e"
proof (induction msgs arbitrary: acc c r c1 ev)
  case Nil
  then show ?case by simp
next
  case (Cons x msgs)
  obtain t m where x: "x = (t, m)" by (cases x)
  let ?acc = "if truthy (content m) then acc @ the (content m) else acc"
  show ?case
  proof (cases "truthy cid \<and> thread m \<noteq> None")
    case False
    with Cons.prems x have "drain pf cid name msgs ?acc c = (r, c1, ev)"
      by (auto simp: Let_def)
    then show ?thesis by (rule Cons.IH)
  next
    case True
    let ?key = "cache_key_of (the cid) name"
    obtain r0 c0 ev0 where st: "ThreadCache_setitem pf t c ?key (the (thread m)) = (r0, c0, ev0)"
      by (cases "ThreadCache_setitem pf t c ?key (the (thread m))") auto
    note n0 = setitem_no_invoke[OF st]
    show ?thesis
    proof (cases r0)
      case (Inl e)
      with Cons.prems x True st have "ev = CacheSet ?key (the (thread m)) # ev0"
        by (auto simp: Let_def)
      with n0 show ?thesis by auto
    next
      case (Inr u)
      obtain r2 c2 ev2 where d: "drain pf cid name msgs ?acc c0 = (r2, c2, ev2)"
        by (cases "drain pf cid name msgs ?acc c0") auto
      note n2 = Cons.IH[OF d]
      from Cons.prems x True st Inr d have "ev = CacheSet ?key (the (thread m)) # ev0 @ ev2"
        by (auto simp: Let_def)
      with n0 n2 show ?thesis by auto
    qed
  qed
qed

lemma cached_thread_no_invoke:
  "cached_thread now c cid name = (r, c1, ev) \<Longrightarrow> \<forall>e\<in>set ev. \<not> is_invoke e"
  unfolding cached_thread_def Let_def
  by (auto split: option.splits if_splits prod.splits sum.splits)

lemma respond_run:
  assumes "is_configured self" and "determine_target_agent u = (name, ev0)"
    and "agents self name = Some agent"
    and "cached_thread now (thread_cache self) cid name = (Inr thr, c1, ev2)"
    and "agent u thr = Stream msgs failure"
    and "drain pf cid name msgs [] c1 = (rd, c2, ev4)"
  shows "respond pf self now u cid =
           (fst (outcome name rd failure), self\<lparr>thread_cache := c2\<rparr>,
            ev0 @ [Log INFO (''Using '' @ name @ '' for query: '' @ take 50 u @ ''...'')] @ ev2
              @ [Invoke name u thr] @ ev4 @ snd (outcome name rd failure))"
  unfolding respond_def Let_def handled_def outcome_def failure_response_def success_response_def
    no_response_def
  using assms by (simp split: sum.splits option.splits)

lemma outcome_no_invoke: "\<forall>e\<in>set (snd (outcome name rd failure)). \<not> is_invoke e"
  unfolding outcome_def by (simp split: sum.splits option.splits)

lemma respond_invoked:
  assumes r: "respond pf self now u cid = (r, self1, ev)"
    and i: "Invoke name v thr \<in> set ev"
  shows "is_configured self \<and> name = fst (determine_target_agent u) \<and> v = u
         \<and> (\<exists>c1 ev2. cached_thread now (thread_cache self) cid name = (Inr thr, c1, ev2))
         \<and> filter is_invoke ev = [Invoke name u thr]"
proof -
  obtain name0 ev0 where dt: "determine_target_agent u = (name0, ev0)"
    by (cases "determine_target_agent u") auto
  from determine_no_invoke[of u] dt have n0: "\<forall>e\<in>set ev0. \<not> is_invoke e" by simp
  have conf: "is_configured self"
  proof (rule ccontr)
    assume "\<not> is_configured self"
    with r have "ev = [Log ERROR ''Simple Foundry orchestrator not configured'']"
      unfolding respond_def by simp
    with i show False by simp
  qed
  obtain agent where ag: "agents self name0 = Some agent"
  proof (cases "agents self name0")
    case None
    with r conf dt have "ev = ev0 @ [Log ERROR (''Agent '' @ name0 @ '' not available'')]"
      unfolding respond_def by simp
    with i n0 have False by auto
    then show ?thesis ..
  next
    case (Some a)
    then show ?thesis using that by blast
  qed
  obtain rt c1 ev2 where ct: "cached_thread now (thread_cache self) cid name0 = (rt, c1, ev2)"
    by (cases "cached_thread now (thread_cache self) cid name0") auto
  note n2 = cached_thread_no_invoke[OF ct]
  obtain thr0 where rt: "rt = Inr thr0"
  proof (cases rt)
    case (Inl e)
    with r conf dt ag ct have "\<forall>x\<in>set ev. \<not> is_invoke x"
      unfolding respond_def handled_def Let_def using n0 n2 by (auto split: if_splits)
    with i have False by auto
    then show ?thesis ..
  next
    case (Inr x)
    then show ?thesis using that by blast
  qed
  obtain msgs failure where st: "agent u thr0 = Stream msgs failure"
    by (cases "agent u thr0") auto
  obtain rd c2 ev4 where d: "drain pf cid name0 msgs [] c1 = (rd, c2, ev4)"
    by (cases "drain pf cid name0 msgs [] c1") auto
  note n4 = drain_no_invoke[OF d]
  from respond_run[OF conf dt ag ct[unfolded rt] st d] r
  have ev: "ev = ev0 @ [Log INFO (''Using '' @ name0 @ '' for query: '' @ take 50 u @ ''...'')] @ ev2
              @ [Invoke name0 u thr0] @ ev4 @ snd (outcome name0 rd failure)"
    by simp
  have fo: "filter is_invoke (snd (outcome name0 rd failure)) = []"
    using outcome_no_invoke[of name0 rd failure] by (simp add: filter_empty_conv)
  have f0: "filter is_invoke ev0 = []" using n0 by (simp add: filter_empty_conv)
  have f2: "filter is_invoke ev2 = []" using n2 by (simp add: filter_empty_conv)
  have f4: "filter is_invoke ev4 = []" using n4 by (simp add: filter_empty_conv)
  have fl: "filter is_invoke ev = [Invoke name0 u thr0]"
    unfolding ev using f0 f2 f4 fo by simp
  from i have "Invoke name v thr \<in> set (filter is_invoke ev)" by simp
  with fl have eq: "name = name0" "v = u" "thr = thr0" by auto
  with conf dt ct rt fl show ?thesis by simp
qed

lemma question_mark_no_space: "\<not> is_space (CHR ''?'')"
  unfolding is_space_def by simp

lemma endswith_question: "endswith s ''?'' \<longleftrightarrow> (\<exists>p. s = p @ ''?'')"
proof
  assume "endswith s ''?''"
  then have "s = take (length s - 1) s @ ''?''"
    unfolding endswith_def by (metis append_take_drop_id length_Cons list.size(3) One_nat_def)
  then show "\<exists>p. s = p @ ''?''" ..
next
  assume "\<exists>p. s = p @ ''?''"
  then show "endswith s ''?''" unfolding endswith_def by auto
qed

lemma strip_question:
  "endswith (py_strip t) ''?'' \<longleftrightarrow> (\<exists>p w. t = p @ ''?'' @ w \<and> list_all is_space w)"
proof
  assume "endswith (py_strip t) ''?''"
  then obtain s where s: "py_strip t = s @ ''?''" using endswith_question by blast
  define d where "d = dropWhile is_space t"
  define w where "w = rev (takeWhile is_space (rev d))"
  have "rev d = takeWhile is_space (rev d) @ dropWhile is_space (rev d)" by simp
  then have "d = rev (dropWhile is_space (rev d)) @ w"
    unfolding w_def by (metis rev_append rev_rev_ident)
  with s have "d = s @ ''?'' @ w" unfolding py_strip_def d_def by simp
  moreover have "t = takeWhile is_space t @ d" unfolding d_def by simp
  ultimately have "t = (takeWhile is_space t @ s) @ ''?'' @ w" by simp
  moreover have "list_all is_space w"
    unfolding w_def list_all_iff by (auto dest: set_takeWhileD)
  ultimately show "\<exists>p w. t = p @ ''?'' @ w \<and> list_all is_space w" by blast
next
  assume "\<exists>p w. t = p @ ''?'' @ w \<and> list_all is_space w"
  then obtain p w where t: "t = p @ ''?'' @ w" and w: "list_all is_space w" by blast
  have "\<exists>q. dropWhile is_space t = q @ ''?'' @ w"
  proof (cases "\<forall>x\<in>set p. is_space x")
    case True
    then have "dropWhile is_space t = dropWhile is_space (''?'' @ w)"
      unfolding t by (simp add: dropWhile_append2)
    then have "dropWhile is_space t = [] @ ''?'' @ w"
      using question_mark_no_space by simp
    then show ?thesis by blast
  next
    case False
    then have "dropWhile is_space t = dropWhile is_space p @ ''?'' @ w"
      unfolding t by (auto simp: dropWhile_append1)
    then show ?thesis by blast
  qed
  then obtain q where q: "dropWhile is_space t = q @ ''?'' @ w" by blast
  have "rev (dropWhile is_space t) = rev w @ CHR ''?'' # rev q" unfolding q by simp
  moreover have "dropWhile is_space (rev w @ CHR ''?'' # rev q) = dropWhile is_space (CHR ''?'' # rev q)"
    using w unfolding list_all_iff by (intro dropWhile_append2) simp
  ultimately have "dropWhile is_space (rev (dropWhile is_space t)) = CHR ''?'' # rev q"
    using question_mark_no_space by simp
  then have "py_strip t = q @ ''?''" unfolding py_strip_def by simp
  then show "endswith (py_strip t) ''?''" using endswith_question by blast
qed

section \<open>The platforms of the concrete runs\<close>

lemma quiet_contained: "log_contained quiet" "add_monotone quiet"
  unfolding log_contained_def add_monotone_def quiet_def by simp_all


section \<open>The calls of the orchestrator\<close>

text \<open>
  C4. An orchestrator that is not configured answers every call with the same error
  dictionary, whose \<open>error\<close> and \<open>text\<close> are not empty. The orchestrator and its thread
  cache are returned as they were, and the only event of the call is the error line of the
  log: no invocation, no routing line, no cache lookup, no cache assignment.
\<close>

theorem unconfigured_respond_is_fixed_error:
  assumes "\<not> is_configured self"
  shows "respond pf self now user_text conversation_id =
           (Inr [(''error'', Str ''Simple Foundry orchestrator not configured''),
                 (''text'', Str ''I'm sorry, the AI service is not properly configured.'')],
            self, [Log ERROR ''Simple Foundry orchestrator not configured''])"
  using assms unfolding respond_def by simp

theorem unconfigured_respond_is_fixed_error_witness:
  "\<not> is_configured (fst (SimpleFoundryOrchestrator_init False))
   \<and> respond quiet (fst (SimpleFoundryOrchestrator_init False)) 0 ''anything'' (Some ''conv-1'') =
       (Inr [(''error'', Str ''Simple Foundry orchestrator not configured''),
             (''text'', Str ''I'm sorry, the AI service is not properly configured.'')],
        fst (SimpleFoundryOrchestrator_init False),
        [Log ERROR ''Simple Foundry orchestrator not configured''])"
proof -
  have h: "\<not> is_configured (fst (SimpleFoundryOrchestrator_init False))"
    by (simp add: SimpleFoundryOrchestrator_init_def)
  from h unconfigured_respond_is_fixed_error [OF h] show ?thesis by simp
qed

lemma cached_thread_inv:
  assumes inv: "cache_inv pf t0 c" and ct: "cached_thread now c cid name = (rt, c1, ev2)"
  shows "cache_inv pf t0 c1 \<and> (\<exists>x. rt = Inr x) \<and> entries c1 = entries c \<and> ttl c1 = ttl c
         \<and> maxsize c1 = maxsize c"
proof (cases "truthy cid")
  case False
  with ct inv show ?thesis
    unfolding cached_thread_def by (cases cid) (auto split: if_splits)
next
  case True
  then obtain k where cid: "cid = Some k" "k \<noteq> []" by (cases cid) auto
  let ?key = "cache_key_of k name"
  obtain rg cg where g: "Cache_get now c ?key = (rg, cg)" by (cases "Cache_get now c ?key") auto
  from get_keeps_inv[OF inv, of now ?key] g
  have i: "cache_inv pf t0 cg" and e: "entries cg = entries c" and ok: "\<exists>x. rg = Inr x" by auto
  have f: "ttl cg = ttl c \<and> maxsize cg = maxsize c"
    using g unfolding get_inv[OF inv] touched_def by (auto split: option.splits if_splits)
  from ct cid g ok have "c1 = cg \<and> (\<exists>x. rt = Inr x)"
    unfolding cached_thread_def Let_def by (auto split: if_splits)
  with i e f show ?thesis by simp
qed

text \<open>
  C5. When the invocation made by a call ends normally, the fragments of its messages are
  concatenated in order. If the text \<open>t\<close> is not empty the result is the dictionary with
  \<open>messages = [t]\<close>, \<open>text = t\<close> and \<open>awaiting_user\<close> true exactly when \<open>t\<close> is some text, a
  question mark and then only whitespace. If it is empty the result is the error
  dictionary "No response from agent". The call makes this one invocation only. The
  witness runs an answer that ends with a full stop, and a question followed by a space, a
  no-break space, a next-line character and a newline.
\<close>

theorem respond_aggregates_fragments:
  assumes "cache_inv pf t0 (thread_cache self)"
    and "log_contained pf" and "add_monotone pf"
    and "respond pf self now user_text conversation_id = (r, self1, ev)"
    and "Invoke name user_text thr \<in> set ev"
    and "agents self name = Some agent"
    and "agent user_text thr = Stream msgs None"
    and "sorted (t0 # map fst msgs)"
  shows "(stream_text msgs \<noteq> [] \<longrightarrow>
            r = Inr [(''messages'', StrList [stream_text msgs]),
                     (''awaiting_user'', Bool (endswith (py_strip (stream_text msgs)) ''?'')),
                     (''text'', Str (stream_text msgs))])
       \<and> (endswith (py_strip (stream_text msgs)) ''?''
            \<longleftrightarrow> (\<exists>p w. stream_text msgs = p @ ''?'' @ w \<and> list_all is_space w))
       \<and> (stream_text msgs = [] \<longrightarrow>
            r = Inr [(''error'', Str ''No response from agent''),
                     (''text'', Str ''I'm sorry, I couldn't get a response from the agent.'')])
       \<and> filter is_invoke ev = [Invoke name user_text thr]"
proof -
  from respond_invoked[OF assms(4,5)] obtain c1 ev2 where
    conf: "is_configured self" and name: "name = fst (determine_target_agent user_text)"
    and ct: "cached_thread now (thread_cache self) conversation_id name = (Inr thr, c1, ev2)"
    and one: "filter is_invoke ev = [Invoke name user_text thr]"
    by blast
  from name have dt: "determine_target_agent user_text = (name, snd (determine_target_agent user_text))"
    by simp
  from cached_thread_inv[OF assms(1) ct] have inv1: "cache_inv pf t0 c1" by simp
  from drain_inv[OF inv1 assms(8) assms(2,3), of conversation_id name "[]"] obtain c2 ev4 where
    d: "drain pf conversation_id name msgs [] c1 = (Inr (stream_text msgs), c2, ev4)"
    by auto
  from respond_run[OF conf dt assms(6) ct assms(7) d] assms(4)
  have r: "r = fst (outcome name (Inr (stream_text msgs)) None)" by simp
  show ?thesis
    using r one strip_question[of "stream_text msgs"]
    unfolding outcome_def success_response_def no_response_def by simp
qed

theorem respond_aggregates_fragments_witness:
  "cache_inv quiet 0 (thread_cache demo) \<and> log_contained quiet \<and> add_monotone quiet
   \<and> Invoke ''ProductLookupAgent'' ''Show me blue paint'' None
        \<in> set (snd (snd (respond quiet demo 0 ''Show me blue paint'' (Some ''conv-7''))))
   \<and> agents demo ''ProductLookupAgent'' = Some demo_agent
   \<and> demo_agent ''Show me blue paint'' None =
        Stream [(1, \<lparr>content = Some ''I found '', thread = Some ''thread_1''\<rparr>),
                (2, \<lparr>content = Some ''two paints.'', thread = Some ''thread_1''\<rparr>)] None
   \<and> fst (respond quiet demo 0 ''Show me blue paint'' (Some ''conv-7'')) =
        Inr [(''messages'', StrList [''I found two paints.'']),
             (''awaiting_user'', Bool False),
             (''text'', Str ''I found two paints.'')]
   \<and> cache_inv quiet 0 (thread_cache demo_asking)
   \<and> Invoke ''KnowledgeAgent'' ''What is your return policy'' None
        \<in> set (snd (snd (respond quiet demo_asking 0 ''What is your return policy'' None)))
   \<and> agents demo_asking ''KnowledgeAgent'' = Some asking_agent
   \<and> asking_agent ''What is your return policy'' None =
        Stream [(1, \<lparr>content = Some ''Is the can '', thread = None\<rparr>),
                (2, \<lparr>content = Some ''damaged?'', thread = None\<rparr>),
                (3, \<lparr>content = Some [CHR 0x20, CHR 0xA0, CHR 0x85, CHR 0x0A], thread = None\<rparr>)] None
   \<and> fst (respond quiet demo_asking 0 ''What is your return policy'' None) =
        Inr [(''messages'', StrList [''Is the can damaged?'' @ [CHR 0x20, CHR 0xA0, CHR 0x85, CHR 0x0A]]),
             (''awaiting_user'', Bool True),
             (''text'', Str (''Is the can damaged?'' @ [CHR 0x20, CHR 0xA0, CHR 0x85, CHR 0x0A]))]"
proof -
  let ?msgs = "[(1::time, \<lparr>content = Some ''I found '', thread = Some ''thread_1''\<rparr>),
                (2, \<lparr>content = Some ''two paints.'', thread = Some ''thread_1''\<rparr>)]"
  let ?R = "respond quiet demo 0 ''Show me blue paint'' (Some ''conv-7'')"
  have h1: "cache_inv quiet 0 (thread_cache demo)"
    by (simp add: demo_def SimpleFoundryOrchestrator_init_def ThreadCache_def cache_inv_def)
  have dt: "determine_target_agent ''Show me blue paint'' =
              (''ProductLookupAgent'', [Log INFO ''Routing to ProductLookupAgent - product score: 1''])"
    by code_simp
  have h4: "agents demo ''ProductLookupAgent'' = Some demo_agent"
    by (simp add: demo_def)
  have h5: "demo_agent ''Show me blue paint'' None = Stream ?msgs None"
    by (simp add: demo_agent_def)
  have h6: "sorted ((0::time) # map fst ?msgs)" by simp
  have conf: "is_configured demo" by (simp add: demo_def SimpleFoundryOrchestrator_init_def)
  have ct: "cached_thread 0 (thread_cache demo) (Some ''conv-7'') ''ProductLookupAgent'' =
              (Inr None, thread_cache demo, [CacheGet ''conv-7_ProductLookupAgent''])"
    by (simp add: cached_thread_def cache_key_of_def Cache_get_def TTLCache_contains_def demo_def
        SimpleFoundryOrchestrator_init_def ThreadCache_def)
  obtain rd c2 ev4 where d: "drain quiet (Some ''conv-7'') ''ProductLookupAgent'' ?msgs [] (thread_cache demo) = (rd, c2, ev4)"
    by (cases "drain quiet (Some ''conv-7'') ''ProductLookupAgent'' ?msgs [] (thread_cache demo)") auto
  have h3: "Invoke ''ProductLookupAgent'' ''Show me blue paint'' None \<in> set (snd (snd ?R))"
    unfolding respond_run[OF conf dt h4 ct h5 d] by simp
  have st: "stream_text ?msgs = ''I found two paints.''"
    by (simp add: stream_text_def fragment_def)
  have aw: "endswith (py_strip ''I found two paints.'') ''?'' = False"
    by code_simp
  have h2: "?R = (fst ?R, fst (snd ?R), snd (snd ?R))" by simp
  from respond_aggregates_fragments [OF h1 quiet_contained h2 h3 h4 h5 h6]
  have a: "fst ?R =
        Inr [(''messages'', StrList [''I found two paints.'']),
             (''awaiting_user'', Bool False),
             (''text'', Str ''I found two paints.'')]"
    unfolding st aw by simp
  let ?q = "[(1::time, \<lparr>content = Some ''Is the can '', thread = None\<rparr>),
             (2, \<lparr>content = Some ''damaged?'', thread = None\<rparr>),
             (3, \<lparr>content = Some [CHR 0x20, CHR 0xA0, CHR 0x85, CHR 0x0A], thread = None\<rparr>)]"
  let ?Q = "respond quiet demo_asking 0 ''What is your return policy'' None"
  have k1: "cache_inv quiet 0 (thread_cache demo_asking)"
    by (simp add: demo_asking_def SimpleFoundryOrchestrator_init_def ThreadCache_def cache_inv_def)
  have kdt: "determine_target_agent ''What is your return policy'' =
              (''KnowledgeAgent'', [Log INFO ''Routing to KnowledgeAgent - policy inquiry''])"
    by code_simp
  have k4: "agents demo_asking ''KnowledgeAgent'' = Some asking_agent"
    by (simp add: demo_asking_def)
  have k5: "asking_agent ''What is your return policy'' None = Stream ?q None"
    by (simp add: asking_agent_def)
  have k6: "sorted ((0::time) # map fst ?q)" by simp
  have kconf: "is_configured demo_asking"
    by (simp add: demo_asking_def SimpleFoundryOrchestrator_init_def)
  have kct: "cached_thread 0 (thread_cache demo_asking) None ''KnowledgeAgent'' =
              (Inr None, thread_cache demo_asking, [])"
    by (simp add: cached_thread_def)
  obtain rd1 c3 ev5 where kd: "drain quiet None ''KnowledgeAgent'' ?q [] (thread_cache demo_asking) = (rd1, c3, ev5)"
    by (cases "drain quiet None ''KnowledgeAgent'' ?q [] (thread_cache demo_asking)") auto
  have k3: "Invoke ''KnowledgeAgent'' ''What is your return policy'' None \<in> set (snd (snd ?Q))"
    unfolding respond_run[OF kconf kdt k4 kct k5 kd] by simp
  have kst: "stream_text ?q = ''Is the can damaged?'' @ [CHR 0x20, CHR 0xA0, CHR 0x85, CHR 0x0A]"
    by (simp add: stream_text_def fragment_def)
  have kaw: "endswith (py_strip (''Is the can damaged?'' @ [CHR 0x20, CHR 0xA0, CHR 0x85, CHR 0x0A])) ''?'' = True"
    by code_simp
  have k2: "?Q = (fst ?Q, fst (snd ?Q), snd (snd ?Q))" by simp
  from respond_aggregates_fragments [OF k1 quiet_contained k2 k3 k4 k5 k6]
  have b: "fst ?Q =
        Inr [(''messages'', StrList [''Is the can damaged?'' @ [CHR 0x20, CHR 0xA0, CHR 0x85, CHR 0x0A]]),
             (''awaiting_user'', Bool True),
             (''text'', Str (''Is the can damaged?'' @ [CHR 0x20, CHR 0xA0, CHR 0x85, CHR 0x0A]))]"
    unfolding kst kaw by simp
  from h1 quiet_contained h3 h4 h5 a k1 k3 k4 k5 b show ?thesis by blast
qed





section \<open>Capacity, eviction and expiry of the thread cache\<close>

lemma new_cache_inv: "1 \<le> m \<Longrightarrow> cache_inv pf t (ThreadCache m l)"
  unfolding cache_inv_def ThreadCache_def by simp

lemma map_fst_filter: "map fst (filter (\<lambda>x. fst x \<noteq> k) xs) = filter (\<lambda>a. a \<noteq> k) (map fst xs)"
  by (induction xs) auto

lemma filter_absent: "k \<notin> set (map fst xs) \<Longrightarrow> filter (\<lambda>x. fst x \<noteq> k) xs = xs"
  by (induction xs) auto

lemma map_of_filter_key:
  "map_of (filter (\<lambda>x. fst x \<noteq> key) xs) k = (if k = key then None else map_of xs k)"
  by (induction xs) auto

lemma stored_lookup:
  "map_of (entries (stored pf t key val c)) key = Some (val, float_add pf t (ttl c))"
  unfolding stored_def by (simp add: map_add_def map_of_filter_key)

lemma stored_other:
  "k \<noteq> key \<Longrightarrow> map_of (entries (stored pf t key val c)) k = map_of (entries c) k"
  unfolding stored_def by (simp add: map_add_def map_of_filter_key split: option.splits)

lemma after_put_lookup:
  "map_of (entries (after_put pf t key val c)) key = Some (val, float_add pf t (ttl c))"
  unfolding after_put_def Let_def using stored_lookup[of pf t key val]
  by (simp add: purged_def evicted_def)

lemma after_put_keys:
  assumes inv: "cache_inv pf t0 c" and le: "t0 \<le> t" and am: "add_monotone pf"
  shows "map fst (entries (after_put pf t key val c)) =
           (if key \<in> set (map fst (live t (entries c))) \<or> length (live t (entries c)) < maxsize c
            then filter (\<lambda>k. k \<noteq> key) (map fst (live t (entries c))) @ [key]
            else filter (\<lambda>k. k \<noteq> hd (lru (purged t c))) (map fst (live t (entries c))) @ [key])"
proof -
  have e: "entries (purged t c) = live t (entries c)" and m: "maxsize (purged t c) = maxsize c"
    unfolding purged_def by simp_all
  show ?thesis
  proof (cases "key \<in> set (map fst (live t (entries c))) \<or> length (live t (entries c)) < maxsize c")
    case True
    then show ?thesis
      unfolding after_put_def Let_def e m stored_def by (simp add: map_fst_filter e)
  next
    case False
    then have k: "key \<notin> set (map fst (live t (entries c)))" by simp
    then have "key \<notin> set (map fst (filter (\<lambda>x. fst x \<noteq> hd (lru (purged t c))) (live t (entries c))))"
      by auto
    then have "filter (\<lambda>x. fst x \<noteq> key) (filter (\<lambda>x. fst x \<noteq> hd (lru (purged t c))) (live t (entries c)))
               = filter (\<lambda>x. fst x \<noteq> hd (lru (purged t c))) (live t (entries c))"
      by (rule filter_absent)
    with False show ?thesis
      unfolding after_put_def Let_def e m stored_def evicted_def
      by (simp add: map_fst_filter e)
  qed
qed

lemma after_put_lru:
  assumes inv: "cache_inv pf t0 c" and le: "t0 \<le> t" and am: "add_monotone pf"
  shows "lru (after_put pf t key val c) =
           (if key \<in> set (map fst (live t (entries c))) \<or> length (live t (entries c)) < maxsize c
            then removeAll key (lru (purged t c)) @ [key]
            else tl (lru (purged t c)) @ [key])"
proof -
  have e: "entries (purged t c) = live t (entries c)" and m: "maxsize (purged t c) = maxsize c"
    unfolding purged_def by simp_all
  from purged_inv(1)[OF inv le am] have ks: "set (lru (purged t c)) = set (map fst (live t (entries c)))"
    unfolding cache_inv_def e by simp
  show ?thesis
  proof (cases "key \<in> set (map fst (live t (entries c))) \<or> length (live t (entries c)) < maxsize c")
    case True
    then show ?thesis unfolding after_put_def Let_def e m stored_def by simp
  next
    case False
    with ks have "key \<notin> set (lru (purged t c))" by simp
    then have "key \<notin> set (tl (lru (purged t c)))"
      by (metis list.sel(2) list.set_sel(2))
    then have "removeAll key (tl (lru (purged t c))) = tl (lru (purged t c))" by simp
    with False show ?thesis
      unfolding after_put_def Let_def e m stored_def evicted_def by simp
  qed
qed

lemma after_put_drops_expired:
  assumes "x \<in> set (entries c)" and "expires_of x \<le> t" and "t < float_add pf t (ttl c)"
  shows "x \<notin> set (entries (after_put pf t key val c))"
proof -
  have a: "x \<notin> set (live t (entries c))" using assms(2) unfolding live_def by simp
  have b: "x \<noteq> (key, val, float_add pf t (ttl c))"
    using assms(2,3) unfolding expires_of_def by auto
  have t: "ttl (purged t c) = ttl c" "ttl (evicted (purged t c)) = ttl c"
    unfolding purged_def evicted_def by simp_all
  from a b show ?thesis
    unfolding after_put_def Let_def stored_def
    by (auto simp: t purged_def evicted_def)
qed

lemma get_expired:
  assumes "cache_inv pf t0 c" and "map_of (entries c) k = Some (v, e)" and "e \<le> t"
  shows "Cache_get t c k = (Inr None, c)"
  unfolding get_inv[OF assms(1)] using assms(2,3) by simp

lemma get_hit:
  assumes "cache_inv pf t0 c" and "map_of (entries c) k = Some (v, e)" and "t < e"
  shows "Cache_get t c k = (Inr (Some v), c\<lparr>lru := removeAll k (lru c) @ [k]\<rparr>)"
  unfolding get_inv[OF assms(1)] touched_def using assms(2,3) by simp

text \<open>
  C7, as stated, fails for a lookup: in the cache of the orchestrator, an entry assigned at
  time 0 has reached its time-to-live at time 3600 (the sum \<open>0 + 3600\<close> is exact); \<open>get\<close>
  at that time answers \<open>None\<close> and leaves the entry stored.
\<close>

theorem get_does_not_purge:
  "ThreadCache_setitem quiet 0 (thread_cache (fst (SimpleFoundryOrchestrator_init True)))
       ''conv-1_KnowledgeAgent'' ''thread_1''
     = (Inr (),
        \<lparr>maxsize = 1000, ttl = 3600,
          entries = [(''conv-1_KnowledgeAgent'', ''thread_1'', 3600)],
          lru = [''conv-1_KnowledgeAgent'']\<rparr>, [])
   \<and> Cache_get 3600
        \<lparr>maxsize = 1000, ttl = 3600,
          entries = [(''conv-1_KnowledgeAgent'', ''thread_1'', 3600)],
          lru = [''conv-1_KnowledgeAgent'']\<rparr> ''conv-1_KnowledgeAgent''
     = (Inr None,
        \<lparr>maxsize = 1000, ttl = 3600,
          entries = [(''conv-1_KnowledgeAgent'', ''thread_1'', 3600)],
          lru = [''conv-1_KnowledgeAgent'']\<rparr>)"
proof -
  have i: "cache_inv quiet 0 (ThreadCache 1000 3600)" by (rule new_cache_inv) simp
  have "ThreadCache_setitem quiet 0 (ThreadCache 1000 3600) ''conv-1_KnowledgeAgent'' ''thread_1''
     = (Inr (),
        \<lparr>maxsize = 1000, ttl = 3600,
          entries = [(''conv-1_KnowledgeAgent'', ''thread_1'', 3600)],
          lru = [''conv-1_KnowledgeAgent'']\<rparr>, [])"
    unfolding setitem_inv[OF i order_refl quiet_contained]
    by (simp add: after_put_def put_events_def purged_def live_def stored_def ThreadCache_def quiet_def)
  moreover have "Cache_get 3600
        \<lparr>maxsize = 1000, ttl = 3600,
          entries = [(''conv-1_KnowledgeAgent'', ''thread_1'', 3600)],
          lru = [''conv-1_KnowledgeAgent'']\<rparr> ''conv-1_KnowledgeAgent''
     = (Inr None,
        \<lparr>maxsize = 1000, ttl = 3600,
          entries = [(''conv-1_KnowledgeAgent'', ''thread_1'', 3600)],
          lru = [''conv-1_KnowledgeAgent'']\<rparr>)"
    by (simp add: Cache_get_def TTLCache_contains_def)
  ultimately show ?thesis
    by (simp add: SimpleFoundryOrchestrator_init_def)
qed

text \<open>
  C7, amended. The cache of the orchestrator has 1000 slots and a time-to-live of 3600.
  Take a cache that satisfies its invariant, log calls of which nothing leaves the guarded
  blocks, a sum of floats that is monotone, and an assignment at a time \<open>t\<close> not before the
  last reading of the timer, with \<open>t\<close> below the new expiry. The assignment succeeds and
  leaves at most \<open>maxsize\<close> entries; the new entry expires at the sum of floats of \<open>t\<close> and
  the time-to-live. It first drops every entry whose expiry is not after \<open>t\<close>, wherever the
  entry is in the order of use. If the key is new and the entries left fill the cache, it
  then drops exactly the first of them in the order of use; otherwise it drops none of
  them. A lookup moves the key it finds to the end of the order of use; it answers \<open>None\<close>
  for an entry whose expiry is not after the time of the lookup and does not remove it.
\<close>

theorem thread_cache_bounded_lru_ttl:
  assumes "cache_inv pf t0 c" and "t0 \<le> t"
    and "log_contained pf" and "add_monotone pf"
    and "t < float_add pf t (ttl c)"
    and "ThreadCache_setitem pf t c key val = (res, c1, ev)"
  shows "maxsize (thread_cache (fst (SimpleFoundryOrchestrator_init b))) = 1000
       \<and> ttl (thread_cache (fst (SimpleFoundryOrchestrator_init b))) = 3600
       \<and> cache_inv pf t0 (thread_cache (fst (SimpleFoundryOrchestrator_init b)))
       \<and> res = Inr () \<and> cache_inv pf t c1 \<and> maxsize c1 = maxsize c \<and> ttl c1 = ttl c
       \<and> length (entries c1) \<le> maxsize c
       \<and> map_of (entries c1) key = Some (val, float_add pf t (ttl c))
       \<and> (\<forall>x\<in>set (entries c). expires_of x \<le> t \<longrightarrow> x \<notin> set (entries c1))
       \<and> (key \<in> set (map fst (live t (entries c))) \<or> length (live t (entries c)) < maxsize c
            \<longrightarrow> map fst (entries c1) = filter (\<lambda>k. k \<noteq> key) (map fst (live t (entries c))) @ [key]
              \<and> lru c1 = removeAll key (lru (purged t c)) @ [key])
       \<and> (key \<notin> set (map fst (live t (entries c))) \<and> length (live t (entries c)) = maxsize c
            \<longrightarrow> map fst (entries c1)
                  = filter (\<lambda>k. k \<noteq> hd (lru (purged t c))) (map fst (live t (entries c))) @ [key]
              \<and> lru c1 = tl (lru (purged t c)) @ [key])
       \<and> (\<forall>k v e. map_of (entries c) k = Some (v, e) \<and> t < e
            \<longrightarrow> Cache_get t c k = (Inr (Some v), c\<lparr>lru := removeAll k (lru c) @ [k]\<rparr>))
       \<and> (\<forall>k v e. map_of (entries c) k = Some (v, e) \<and> e \<le> t
            \<longrightarrow> Cache_get t c k = (Inr None, c))"
proof -
  from assms(6) setitem_inv[OF assms(1,2,3,4), of key val]
  have res: "res = Inr ()" and c1: "c1 = after_put pf t key val c" by simp_all
  have init: "maxsize (thread_cache (fst (SimpleFoundryOrchestrator_init b))) = 1000
       \<and> ttl (thread_cache (fst (SimpleFoundryOrchestrator_init b))) = 3600
       \<and> cache_inv pf t0 (thread_cache (fst (SimpleFoundryOrchestrator_init b)))"
    using new_cache_inv[of 1000 pf t0 3600]
    by (simp add: SimpleFoundryOrchestrator_init_def ThreadCache_def)
  have inv1: "cache_inv pf t c1" unfolding c1 using after_put_inv[OF assms(1,2,4)] .
  then have len: "length (entries c1) \<le> maxsize c"
    unfolding cache_inv_def c1 by (simp add: after_put_fields)
  have look: "map_of (entries c1) key = Some (val, float_add pf t (ttl c))"
    unfolding c1 by (rule after_put_lookup)
  have gone: "\<forall>x\<in>set (entries c). expires_of x \<le> t \<longrightarrow> x \<notin> set (entries c1)"
    unfolding c1 using after_put_drops_expired[OF _ _ assms(5)] by blast
  from purged_inv(1)[OF assms(1,2,4)] have "length (live t (entries c)) \<le> maxsize c"
    unfolding cache_inv_def purged_def by simp
  then have full: "length (live t (entries c)) = maxsize c \<Longrightarrow> \<not> length (live t (entries c)) < maxsize c"
    by simp
  have keep: "key \<in> set (map fst (live t (entries c))) \<or> length (live t (entries c)) < maxsize c
            \<longrightarrow> map fst (entries c1) = filter (\<lambda>k. k \<noteq> key) (map fst (live t (entries c))) @ [key]
              \<and> lru c1 = removeAll key (lru (purged t c)) @ [key]"
    unfolding c1 after_put_keys[OF assms(1,2,4)] after_put_lru[OF assms(1,2,4)] by simp
  have evict: "key \<notin> set (map fst (live t (entries c))) \<and> length (live t (entries c)) = maxsize c
            \<longrightarrow> map fst (entries c1)
                  = filter (\<lambda>k. k \<noteq> hd (lru (purged t c))) (map fst (live t (entries c))) @ [key]
              \<and> lru c1 = tl (lru (purged t c)) @ [key]"
    unfolding c1 after_put_keys[OF assms(1,2,4)] after_put_lru[OF assms(1,2,4)] using full by simp
  have hit: "\<forall>k v e. map_of (entries c) k = Some (v, e) \<and> t < e
            \<longrightarrow> Cache_get t c k = (Inr (Some v), c\<lparr>lru := removeAll k (lru c) @ [k]\<rparr>)"
    using get_hit[OF assms(1)] by blast
  have miss: "\<forall>k v e. map_of (entries c) k = Some (v, e) \<and> e \<le> t
            \<longrightarrow> Cache_get t c k = (Inr None, c)"
    using get_expired[OF assms(1)] by blast
  from init res inv1 len look gone keep evict hit miss show ?thesis
    unfolding c1 by (simp add: after_put_fields)
qed

theorem thread_cache_bounded_lru_ttl_witness:
  "cache_inv quiet 2 small_cache \<and> (2::time) \<le> 3
   \<and> log_contained quiet \<and> add_monotone quiet
   \<and> 3 < float_add quiet 3 (ttl small_cache)
   \<and> ThreadCache_setitem quiet 3 small_cache ''c'' ''thread_c''
       = (Inr (),
          \<lparr>maxsize = 2, ttl = 10,
            entries = [(''a'', ''thread_a'', 10), (''c'', ''thread_c'', 13)],
            lru = [''a'', ''c'']\<rparr>,
          [Log INFO ''Thread evicted from cache (LRU): thread_b''])
   \<and> live 3 (entries small_cache) = entries small_cache
   \<and> hd (lru (purged 3 small_cache)) = ''b''
   \<and> length (entries \<lparr>maxsize = 2, ttl = 10,
            entries = [(''a'', ''thread_a'', 10), (''c'', ''thread_c'', 13)],
            lru = [''a'', ''c'']\<rparr>) \<le> maxsize small_cache
   \<and> 10 < float_add quiet 10 (ttl small_cache)
   \<and> ThreadCache_setitem quiet 10 small_cache ''c'' ''thread_c''
       = (Inr (),
          \<lparr>maxsize = 2, ttl = 10,
            entries = [(''b'', ''thread_b'', 11), (''c'', ''thread_c'', 20)],
            lru = [''b'', ''c'']\<rparr>,
          [Log INFO ''Thread expired from cache: thread_a''])
   \<and> (''a'', ''thread_a'', 10) \<notin> set (entries \<lparr>maxsize = 2, ttl = 10,
            entries = [(''b'', ''thread_b'', 11), (''c'', ''thread_c'', 20)],
            lru = [''b'', ''c'']\<rparr>)"
proof -
  have h1: "cache_inv quiet 2 small_cache"
    by (auto simp: cache_inv_def small_cache_def expires_of_def quiet_def)
  have h2: "(2::time) \<le> 3" and h2': "(2::time) \<le> 10" by simp_all
  have h3: "3 < float_add quiet 3 (ttl small_cache)"
    and h3': "10 < float_add quiet 10 (ttl small_cache)"
    by (simp_all add: small_cache_def quiet_def)
  have h4: "ThreadCache_setitem quiet 3 small_cache ''c'' ''thread_c''
       = (Inr (),
          \<lparr>maxsize = 2, ttl = 10,
            entries = [(''a'', ''thread_a'', 10), (''c'', ''thread_c'', 13)],
            lru = [''a'', ''c'']\<rparr>,
          [Log INFO ''Thread evicted from cache (LRU): thread_b''])"
    unfolding setitem_inv[OF h1 h2 quiet_contained]
    by (simp add: after_put_def put_events_def purged_def evicted_def live_def stored_def
        small_cache_def expires_of_def victim_value_def evict_event_def hook_event_def quiet_def)
  have h5: "ThreadCache_setitem quiet 10 small_cache ''c'' ''thread_c''
       = (Inr (),
          \<lparr>maxsize = 2, ttl = 10,
            entries = [(''b'', ''thread_b'', 11), (''c'', ''thread_c'', 20)],
            lru = [''b'', ''c'']\<rparr>,
          [Log INFO ''Thread expired from cache: thread_a''])"
    unfolding setitem_inv[OF h1 h2' quiet_contained]
    by (simp add: after_put_def put_events_def purged_def evicted_def live_def stored_def
        small_cache_def expires_of_def victim_value_def expire_event_def hook_event_def quiet_def)
  have l: "live 3 (entries small_cache) = entries small_cache"
    by (simp add: live_def small_cache_def expires_of_def)
  have v: "hd (lru (purged 3 small_cache)) = ''b''"
    by (simp add: purged_def live_def small_cache_def expires_of_def)
  have m: "(''a'', ''thread_a'', 10) \<in> set (entries small_cache)
           \<and> expires_of (''a'', ''thread_a'', 10::time) \<le> 10"
    by (simp add: small_cache_def expires_of_def)
  from thread_cache_bounded_lru_ttl [OF h1 h2 quiet_contained h3 h4]
  have a: "length (entries \<lparr>maxsize = 2, ttl = 10,
            entries = [(''a'', ''thread_a'', 10), (''c'', ''thread_c'', 13)],
            lru = [''a'', ''c'']\<rparr>) \<le> maxsize small_cache"
    by blast
  from thread_cache_bounded_lru_ttl [OF h1 h2' quiet_contained h3' h5] m
  have b: "(''a'', ''thread_a'', 10) \<notin> set (entries \<lparr>maxsize = 2, ttl = 10,
            entries = [(''b'', ''thread_b'', 11), (''c'', ''thread_c'', 20)],
            lru = [''b'', ''c'']\<rparr>)"
    by blast
  from h1 h2 quiet_contained h3 h3' h4 h5 l v a b show ?thesis by blast
qed

section \<open>The guarded log calls of the cache\<close>




section \<open>Reuse of the cached thread\<close>

lemma drain_append:
  "drain pf cid name xs acc c = (Inr a, c1, ev1) \<Longrightarrow>
   drain pf cid name (xs @ ys) acc c =
     (case drain pf cid name ys a c1 of (r, c2, ev2) \<Rightarrow> (r, c2, ev1 @ ev2))"
proof (induction xs arbitrary: acc c ev1)
  case Nil
  then show ?case by (auto split: prod.splits)
next
  case (Cons x xs)
  obtain t m where x: "x = (t, m)" by (cases x)
  let ?acc = "if truthy (content m) then acc @ the (content m) else acc"
  show ?case
  proof (cases "truthy cid \<and> thread m \<noteq> None")
    case False
    with Cons.prems x have d: "drain pf cid name xs ?acc c = (Inr a, c1, ev1)"
      by (auto simp: Let_def)
    from Cons.IH[OF d] False x show ?thesis by (auto simp: Let_def)
  next
    case True
    let ?key = "cache_key_of (the cid) name"
    obtain r0 c0 ev0 where st: "ThreadCache_setitem pf t c ?key (the (thread m)) = (r0, c0, ev0)"
      by (cases "ThreadCache_setitem pf t c ?key (the (thread m))") auto
    obtain r2 c2 ev2 where d: "drain pf cid name xs ?acc c0 = (r2, c2, ev2)"
      by (cases "drain pf cid name xs ?acc c0") auto
    from Cons.prems x True st d have r0: "r0 = Inr ()" and r2: "r2 = Inr a" and c2: "c2 = c1"
      and ev1: "ev1 = CacheSet ?key (the (thread m)) # ev0 @ ev2"
      by (auto simp: Let_def split: sum.splits)
    from Cons.IH[OF d[unfolded r2 c2]] x True st r0 ev1 show ?thesis
      by (auto simp: Let_def split: prod.splits)
  qed
qed

lemma drain_no_thread:
  "\<forall>x\<in>set msgs. thread (snd x) = None \<Longrightarrow>
   drain pf cid name msgs acc c = (Inr (acc @ stream_text msgs), c, [])"
proof (induction msgs arbitrary: acc)
  case Nil
  then show ?case by (simp add: stream_text_def)
next
  case (Cons x msgs)
  obtain t m where x: "x = (t, m)" by (cases x)
  have f: "(if truthy (content m) then acc @ the (content m) else acc) = acc @ fragment m"
    unfolding fragment_def by (cases "content m") auto
  from Cons.prems x have "thread m = None" and rest: "\<forall>x\<in>set msgs. thread (snd x) = None"
    by auto
  with Cons.IH[OF rest, of "acc @ fragment m"] x f show ?case
    by (simp add: Let_def stream_text_def)
qed

lemma sorted_last_le:
  "sorted (t0 # map fst (pre @ (t, m) # post)) \<Longrightarrow> last (t0 # map fst pre) \<le> (t::time)"
proof -
  assume s: "sorted (t0 # map fst (pre @ (t, m) # post))"
  have "last (t0 # map fst pre) \<in> set (t0 # map fst pre)"
    by (rule last_in_set) simp
  moreover from s have "\<forall>y\<in>set (t0 # map fst pre). y \<le> t"
    by (auto simp: sorted_append)
  ultimately show ?thesis by blast
qed

lemma sorted_prefix:
  "sorted (t0 # map fst (pre @ rest)) \<Longrightarrow> sorted ((t0::time) # map fst pre)"
  by (auto simp: sorted_append)

lemma drain_writes_thread:
  assumes inv: "cache_inv pf t0 c"
    and srt: "sorted (t0 # map fst (pre @ (t_h, m) # post))"
    and cid: "cid \<noteq> []" and th: "thread m = Some h"
    and post: "\<forall>x\<in>set post. thread (snd x) = None"
    and lc: "log_contained pf" and am: "add_monotone pf"
  shows "\<exists>rd c2 ev. drain pf (Some cid) name (pre @ (t_h, m) # post) acc c = (rd, c2, ev)
           \<and> cache_inv pf t_h c2
           \<and> map_of (entries c2) (cache_key_of cid name) = Some (h, float_add pf t_h (ttl c))"
proof -
  from drain_inv[OF inv sorted_prefix[OF srt] lc am, of "Some cid" name acc] obtain c1 ev1 where
    d1: "drain pf (Some cid) name pre acc c = (Inr (acc @ stream_text pre), c1, ev1)"
    and inv1: "cache_inv pf (last (t0 # map fst pre)) c1" and ttl1: "ttl c1 = ttl c"
    by blast
  note le = sorted_last_le[OF srt]
  let ?key = "cache_key_of cid name"
  let ?a = "acc @ stream_text pre"
  let ?a1 = "if truthy (content m) then ?a @ the (content m) else ?a"
  let ?c2 = "after_put pf t_h ?key h c1"
  from drain_no_thread[OF post, of pf "Some cid" name ?a1 ?c2]
  have d3: "drain pf (Some cid) name post ?a1 ?c2 = (Inr (?a1 @ stream_text post), ?c2, [])" .
  have d2: "drain pf (Some cid) name ((t_h, m) # post) ?a c1 =
              (Inr (?a1 @ stream_text post), ?c2, CacheSet ?key h # put_events pf t_h ?key c1 @ [])"
    using cid th d3 by (simp add: Let_def setitem_inv[OF inv1 le lc am])
  have "drain pf (Some cid) name (pre @ (t_h, m) # post) acc c =
          (Inr (?a1 @ stream_text post), ?c2, ev1 @ CacheSet ?key h # put_events pf t_h ?key c1 @ [])"
    unfolding drain_append[OF d1] d2 by simp
  moreover have "cache_inv pf t_h ?c2" by (rule after_put_inv[OF inv1 le am])
  moreover have "map_of (entries ?c2) ?key = Some (h, float_add pf t_h (ttl c))"
    unfolding after_put_lookup ttl1 ..
  ultimately show ?thesis by blast
qed

text \<open>
  C9. A first call for a conversation invokes an agent, and the last message of its stream
  that carries a thread carries the id \<open>h\<close>, handled at time \<open>t_h\<close>. Then the cache of the
  orchestrator holds \<open>h\<close> under the key of the conversation and the agent, with the sum of
  floats of \<open>t_h\<close> and the time-to-live as expiry. Take any later state of the orchestrator
  in which this entry is still the entry of the key (it was not evicted), and a second call
  for the same conversation, routed to the same agent, whose lookup is made before that
  expiry: the lookup is a hit, the second call invokes the agent with the thread \<open>h\<close>, and
  makes no other invocation. The state that the first call leaves is such a later state.
  The log calls are those of which nothing leaves the guarded blocks, and the sum of floats
  is monotone.
\<close>

theorem second_call_reuses_thread:
  assumes "cache_inv pf t0 (thread_cache self)"
    and "log_contained pf" and "add_monotone pf"
    and "conversation_id \<noteq> []"
    and "respond pf self now1 text1 (Some conversation_id) = (r1, self1, ev1)"
    and "Invoke name text1 thr1 \<in> set ev1"
    and "agents self name = Some agent"
    and "agent text1 thr1 = Stream (pre @ (t_h, m) # post) failure"
    and "thread m = Some h" and "h \<noteq> []"
    and "\<forall>x\<in>set post. thread (snd x) = None"
    and "sorted (t0 # map fst (pre @ (t_h, m) # post))"
    and "is_configured later" and "agents later name = Some agent2"
    and "cache_inv pf t1 (thread_cache later)"
    and "map_of (entries (thread_cache later)) (cache_key_of conversation_id name)
           = map_of (entries (thread_cache self1)) (cache_key_of conversation_id name)"
    and "fst (determine_target_agent text2) = name"
    and "now2 < float_add pf t_h (ttl (thread_cache self))"
    and "respond pf later now2 text2 (Some conversation_id) = (r2, self2, ev2)"
  shows "map_of (entries (thread_cache self1)) (cache_key_of conversation_id name)
           = Some (h, float_add pf t_h (ttl (thread_cache self)))
       \<and> is_configured self1 \<and> agents self1 = agents self
       \<and> cache_inv pf t_h (thread_cache self1)
       \<and> CacheGet (cache_key_of conversation_id name) \<in> set ev2
       \<and> Log INFO (''Reusing cached thread: '' @ h) \<in> set ev2
       \<and> Invoke name text2 (Some h) \<in> set ev2
       \<and> filter is_invoke ev2 = [Invoke name text2 (Some h)]"
proof -
  let ?key = "cache_key_of conversation_id name"
  from respond_invoked[OF assms(5,6)] obtain c1 e2 where
    conf: "is_configured self" and name: "name = fst (determine_target_agent text1)"
    and ct: "cached_thread now1 (thread_cache self) (Some conversation_id) name = (Inr thr1, c1, e2)"
    by blast
  from name have dt1: "determine_target_agent text1 = (name, snd (determine_target_agent text1))"
    by simp
  from cached_thread_inv[OF assms(1) ct] have inv1: "cache_inv pf t0 c1"
    and ttl1: "ttl c1 = ttl (thread_cache self)" by simp_all
  from drain_writes_thread[OF inv1 assms(12) assms(4) assms(9) assms(11) assms(2,3), of name "[]"]
  obtain rd c2 ev4 where
    d: "drain pf (Some conversation_id) name (pre @ (t_h, m) # post) [] c1 = (rd, c2, ev4)"
    and inv2: "cache_inv pf t_h c2"
    and look: "map_of (entries c2) ?key = Some (h, float_add pf t_h (ttl c1))"
    by blast
  from respond_run[OF conf dt1 assms(7) ct assms(8) d] assms(5)
  have self1: "self1 = self\<lparr>thread_cache := c2\<rparr>" by simp
  have conf1: "is_configured self1" and ag1: "agents self1 = agents self"
    and tc1: "thread_cache self1 = c2"
    unfolding self1 using conf by simp_all
  from look have look1: "map_of (entries (thread_cache self1)) ?key
                           = Some (h, float_add pf t_h (ttl (thread_cache self)))"
    unfolding tc1 ttl1 .
  from assms(17) have dt2: "determine_target_agent text2 = (name, snd (determine_target_agent text2))"
    by (metis prod.collapse)
  let ?c = "thread_cache later"
  from assms(16) look1
  have look2: "map_of (entries ?c) ?key = Some (h, float_add pf t_h (ttl (thread_cache self)))"
    by simp
  have g: "Cache_get now2 ?c ?key = (Inr (Some h), touched ?key ?c)"
    unfolding get_inv[OF assms(15)] look2 using assms(18) by simp
  have ct2: "cached_thread now2 (thread_cache later) (Some conversation_id) name =
               (Inr (Some h), touched ?key ?c,
                [CacheGet ?key, Log INFO (''Reusing cached thread: '' @ h)])"
    unfolding cached_thread_def using assms(4,10) g by (simp add: Let_def)
  obtain msgs2 failure2 where st2: "agent2 text2 (Some h) = Stream msgs2 failure2"
    by (cases "agent2 text2 (Some h)") auto
  obtain rd2 c3 ev5 where
    d2: "drain pf (Some conversation_id) name msgs2 [] (touched ?key ?c) = (rd2, c3, ev5)"
    by (cases "drain pf (Some conversation_id) name msgs2 [] (touched ?key ?c)") auto
  from respond_run[OF assms(13) dt2 assms(14) ct2 st2 d2] assms(19)
  have ev2: "ev2 = snd (determine_target_agent text2)
               @ [Log INFO (''Using '' @ name @ '' for query: '' @ take 50 text2 @ ''...'')]
               @ [CacheGet ?key, Log INFO (''Reusing cached thread: '' @ h)]
               @ [Invoke name text2 (Some h)] @ ev5 @ snd (outcome name rd2 failure2)"
    by simp
  then have i: "Invoke name text2 (Some h) \<in> set ev2" and cg: "CacheGet ?key \<in> set ev2"
    and lg: "Log INFO (''Reusing cached thread: '' @ h) \<in> set ev2"
    by simp_all
  from respond_invoked[OF assms(19) i] cg lg i look1 conf1 ag1 inv2 tc1 show ?thesis by simp
qed

theorem second_call_reuses_thread_witness:
  "cache_inv quiet 0 (thread_cache shop)
   \<and> log_contained quiet \<and> add_monotone quiet
   \<and> ''conv-7'' \<noteq> []
   \<and> fst (snd (respond quiet shop 0 ''Show me blue paint'' (Some ''conv-7'')))
       = shop\<lparr>thread_cache :=
               \<lparr>maxsize = 1000, ttl = 3600,
                 entries = [(''conv-7_ProductLookupAgent'', ''thread_1'', 3602)],
                 lru = [''conv-7_ProductLookupAgent'']\<rparr>\<rparr>
   \<and> Invoke ''ProductLookupAgent'' ''Show me blue paint'' None
        \<in> set (snd (snd (respond quiet shop 0 ''Show me blue paint'' (Some ''conv-7''))))
   \<and> agents shop ''ProductLookupAgent'' = Some scripted_agent
   \<and> scripted_agent ''Show me blue paint'' None =
        Stream ([(1, \<lparr>content = Some ''I found '', thread = Some ''thread_1''\<rparr>)]
                @ (2, \<lparr>content = Some ''two paints.'', thread = Some ''thread_1''\<rparr>) # []) None
   \<and> fst (snd (respond quiet
         (shop\<lparr>thread_cache :=
               \<lparr>maxsize = 1000, ttl = 3600,
                 entries = [(''conv-7_ProductLookupAgent'', ''thread_1'', 3602)],
                 lru = [''conv-7_ProductLookupAgent'']\<rparr>\<rparr>)
         50 ''Show me green paint'' (Some ''conv-8'')))
       = shop\<lparr>thread_cache :=
               \<lparr>maxsize = 1000, ttl = 3600,
                 entries = [(''conv-7_ProductLookupAgent'', ''thread_1'', 3602),
                            (''conv-8_ProductLookupAgent'', ''thread_2'', 3651)],
                 lru = [''conv-7_ProductLookupAgent'', ''conv-8_ProductLookupAgent'']\<rparr>\<rparr>
   \<and> fst (determine_target_agent ''Show me red paint'') = ''ProductLookupAgent''
   \<and> (100::time) < float_add quiet 2 (ttl (thread_cache shop))
   \<and> Invoke ''ProductLookupAgent'' ''Show me red paint'' (Some ''thread_1'')
        \<in> set (snd (snd (respond quiet
             (shop\<lparr>thread_cache :=
               \<lparr>maxsize = 1000, ttl = 3600,
                 entries = [(''conv-7_ProductLookupAgent'', ''thread_1'', 3602),
                            (''conv-8_ProductLookupAgent'', ''thread_2'', 3651)],
                 lru = [''conv-7_ProductLookupAgent'', ''conv-8_ProductLookupAgent'']\<rparr>\<rparr>)
             100 ''Show me red paint'' (Some ''conv-7''))))
   \<and> filter is_invoke (snd (snd (respond quiet
             (shop\<lparr>thread_cache :=
               \<lparr>maxsize = 1000, ttl = 3600,
                 entries = [(''conv-7_ProductLookupAgent'', ''thread_1'', 3602),
                            (''conv-8_ProductLookupAgent'', ''thread_2'', 3651)],
                 lru = [''conv-7_ProductLookupAgent'', ''conv-8_ProductLookupAgent'']\<rparr>\<rparr>)
             100 ''Show me red paint'' (Some ''conv-7''))))
       = [Invoke ''ProductLookupAgent'' ''Show me red paint'' (Some ''thread_1'')]"
proof -
  let ?m1 = "\<lparr>content = Some ''I found '', thread = Some ''thread_1''\<rparr>"
  let ?m2 = "\<lparr>content = Some ''two paints.'', thread = Some ''thread_1''\<rparr>"
  let ?m3 = "\<lparr>content = Some ''No green paint.'', thread = Some ''thread_2''\<rparr>"
  let ?k7 = "''conv-7_ProductLookupAgent''" and ?k8 = "''conv-8_ProductLookupAgent''"
  let ?c0 = "\<lparr>maxsize = 1000, ttl = 3600, entries = [], lru = []\<rparr> :: ttl_cache"
  let ?c1 = "\<lparr>maxsize = 1000, ttl = 3600, entries = [(?k7, ''thread_1'', 3601)], lru = [?k7]\<rparr>"
  let ?c2 = "\<lparr>maxsize = 1000, ttl = 3600, entries = [(?k7, ''thread_1'', 3602)], lru = [?k7]\<rparr>"
  let ?c3 = "\<lparr>maxsize = 1000, ttl = 3600,
              entries = [(?k7, ''thread_1'', 3602), (?k8, ''thread_2'', 3651)],
              lru = [?k7, ?k8]\<rparr>"
  let ?shop1 = "shop\<lparr>thread_cache := ?c2\<rparr>" and ?shop2 = "shop\<lparr>thread_cache := ?c3\<rparr>"
  let ?R1 = "respond quiet shop 0 ''Show me blue paint'' (Some ''conv-7'')"
  let ?Rm = "respond quiet ?shop1 50 ''Show me green paint'' (Some ''conv-8'')"
  let ?R2 = "respond quiet ?shop2 100 ''Show me red paint'' (Some ''conv-7'')"
  have tc: "thread_cache shop = ?c0"
    by (simp add: shop_def SimpleFoundryOrchestrator_init_def ThreadCache_def)
  have i0: "cache_inv quiet 0 ?c0" and i1: "cache_inv quiet 1 ?c1"
    and i2: "cache_inv quiet 2 ?c2" and i3: "cache_inv quiet 51 ?c3"
    by (auto simp: cache_inv_def expires_of_def quiet_def)
  have h1: "cache_inv quiet 0 (thread_cache shop)" unfolding tc by (rule i0)
  have h4: "''conv-7'' \<noteq> []" by simp
  have s1: "ThreadCache_setitem quiet 1 ?c0 ?k7 ''thread_1'' = (Inr (), ?c1, [])"
    unfolding setitem_inv[OF i0 _ quiet_contained, of 1, simplified]
    by (simp add: after_put_def put_events_def purged_def live_def stored_def expires_of_def quiet_def)
  have s2: "ThreadCache_setitem quiet 2 ?c1 ?k7 ''thread_1'' = (Inr (), ?c2, [])"
    unfolding setitem_inv[OF i1 _ quiet_contained, of 2, simplified]
    by (simp add: after_put_def put_events_def purged_def live_def stored_def expires_of_def quiet_def)
  have s3: "ThreadCache_setitem quiet 51 ?c2 ?k8 ''thread_2'' = (Inr (), ?c3, [])"
    unfolding setitem_inv[OF i2 _ quiet_contained, of 51, simplified]
    by (simp add: after_put_def put_events_def purged_def live_def stored_def expires_of_def quiet_def)
  have conf: "is_configured shop" by (simp add: shop_def SimpleFoundryOrchestrator_init_def)
  have h7: "agents shop ''ProductLookupAgent'' = Some scripted_agent" by (simp add: shop_def)
  have dt1: "determine_target_agent ''Show me blue paint'' =
              (''ProductLookupAgent'', [Log INFO ''Routing to ProductLookupAgent - product score: 1''])"
    by code_simp
  have dtm: "determine_target_agent ''Show me green paint'' =
              (''ProductLookupAgent'', [Log INFO ''Routing to ProductLookupAgent - product score: 1''])"
    by code_simp
  have h17: "fst (determine_target_agent ''Show me red paint'') = ''ProductLookupAgent''"
    by code_simp
  have ct1: "cached_thread 0 (thread_cache shop) (Some ''conv-7'') ''ProductLookupAgent'' =
              (Inr None, ?c0, [CacheGet ?k7])"
    unfolding tc
    by (simp add: cached_thread_def cache_key_of_def Cache_get_def TTLCache_contains_def)
  have h8: "scripted_agent ''Show me blue paint'' None = Stream ([(1, ?m1)] @ (2, ?m2) # []) None"
    by (simp add: scripted_agent_def)
  have d1: "drain quiet (Some ''conv-7'') ''ProductLookupAgent'' ([(1, ?m1)] @ (2, ?m2) # []) [] ?c0
              = (Inr ''I found two paints.'', ?c2,
                 [CacheSet ?k7 ''thread_1'', CacheSet ?k7 ''thread_1''])"
    by (simp add: cache_key_of_def Let_def s1 s2)
  note r1 = respond_run[OF conf dt1 h7 ct1 h8 d1]
  have h5: "?R1 = (fst ?R1, ?shop1, snd (snd ?R1))" unfolding r1 by simp
  have st1: "fst (snd ?R1) = ?shop1" unfolding r1 by simp
  have h6: "Invoke ''ProductLookupAgent'' ''Show me blue paint'' None \<in> set (snd (snd ?R1))"
    unfolding r1 by simp
  have h9: "thread ?m2 = Some ''thread_1''" and h10: "''thread_1'' \<noteq> []" by simp_all
  have h11: "\<forall>x\<in>set ([] :: (time \<times> message) list). thread (snd x) = None" by simp
  have h12: "sorted ((0::time) # map fst ([(1, ?m1)] @ (2, ?m2) # []))" by simp
  have conf1: "is_configured ?shop1" using conf by simp
  have ag1: "agents ?shop1 ''ProductLookupAgent'' = Some scripted_agent" using h7 by simp
  have ctm: "cached_thread 50 (thread_cache ?shop1) (Some ''conv-8'') ''ProductLookupAgent'' =
              (Inr None, ?c2, [CacheGet ?k8])"
    by (simp add: cached_thread_def cache_key_of_def Cache_get_def TTLCache_contains_def)
  have am: "scripted_agent ''Show me green paint'' None = Stream [(51, ?m3)] None"
    by (simp add: scripted_agent_def)
  have dm: "drain quiet (Some ''conv-8'') ''ProductLookupAgent'' [(51, ?m3)] [] ?c2
              = (Inr ''No green paint.'', ?c3, [CacheSet ?k8 ''thread_2''])"
    by (simp add: cache_key_of_def Let_def s3)
  note rm = respond_run[OF conf1 dtm ag1 ctm am dm]
  have stm: "fst (snd ?Rm) = ?shop2" unfolding rm by simp
  have h13: "is_configured ?shop2" using conf by simp
  have h14: "agents ?shop2 ''ProductLookupAgent'' = Some scripted_agent" using h7 by simp
  have h15: "cache_inv quiet 51 (thread_cache ?shop2)" using i3 by simp
  have h16: "map_of (entries (thread_cache ?shop2)) (cache_key_of ''conv-7'' ''ProductLookupAgent'')
               = map_of (entries (thread_cache ?shop1)) (cache_key_of ''conv-7'' ''ProductLookupAgent'')"
    by (simp add: cache_key_of_def)
  have h18: "(100::time) < float_add quiet 2 (ttl (thread_cache shop))"
    unfolding tc by (simp add: quiet_def)
  have h19: "?R2 = (fst ?R2, fst (snd ?R2), snd (snd ?R2))" by simp
  from second_call_reuses_thread [OF h1 quiet_contained h4 h5 h6 h7 h8 h9 h10 h11 h12
      h13 h14 h15 h16 h17 h18 h19]
  have a: "Invoke ''ProductLookupAgent'' ''Show me red paint'' (Some ''thread_1'') \<in> set (snd (snd ?R2))"
    and b: "filter is_invoke (snd (snd ?R2))
              = [Invoke ''ProductLookupAgent'' ''Show me red paint'' (Some ''thread_1'')]"
    by blast+
  from h1 quiet_contained h4 st1 h6 h7 h8 stm h17 h18 a b show ?thesis by blast
qed

end
